theory Spec2Isabelle
  imports Complex_Main
begin

section \<open>Insertion-ordered maps\<close>

text \<open>
  The program keeps its tables in JavaScript \<open>Map\<close> objects: the adjacency
  (parent id to the array of child ids), the depth map, the per-depth counters and the body
  cache. A \<open>Map\<close> iterates in insertion order and \<open>set\<close> on a key that is
  present keeps the key's position, so a map is an association list; \<open>get\<close> is
  \<open>map_of\<close>, \<open>has\<close> is \<open>map_has\<close> and \<open>set\<close> is \<open>map_set\<close>.
\<close>

type_synonym 'a adjacency = "('a \<times> 'a list) list"
type_synonym 'a depth_map = "('a \<times> nat) list"

definition map_has :: "('k \<times> 'v) list \<Rightarrow> 'k \<Rightarrow> bool" where
  "map_has m k = (map_of m k \<noteq> None)"

fun map_set :: "('k \<times> 'v) list \<Rightarrow> 'k \<Rightarrow> 'v \<Rightarrow> ('k \<times> 'v) list" where
  "map_set [] k v = [(k, v)]"
| "map_set ((k', v') # m) k v = (if k' = k then (k, v) # m else (k', v') # map_set m k v)"

text \<open>\<open>adjacency.get(p) || []\<close>: the children of \<open>p\<close>, none when \<open>p\<close> is no key.\<close>

definition adj_get :: "'a adjacency \<Rightarrow> 'a \<Rightarrow> 'a list" where
  "adj_get adjacency p = (case map_of adjacency p of Some cs \<Rightarrow> cs | None \<Rightarrow> [])"

lemma map_of_map_set: "map_of (map_set m k v) = (map_of m)(k \<mapsto> v)"
  by (induction m) (auto simp: fun_eq_iff)

lemma keys_map_set: "fst ` set (map_set m k v) = insert k (fst ` set m)"
proof -
  have "dom (map_of (map_set m k v)) = insert k (dom (map_of m))"
    by (simp add: map_of_map_set)
  then show ?thesis by (simp add: dom_map_of_conv_image_fst)
qed

section \<open>Breadth-first depth labelling in \<open>buildTree\<close>\<close>

text \<open>
  \<^verbatim>\<open>
  const depth = new Map([[rootId, 0]]);
  const q = [rootId];
  while (q.length) {
      const p = q.shift();
      for (const c of adjacency.get(p) || []) {
          if (!depth.has(c)) {
              depth.set(c, (depth.get(p) ?? 0) + 1);
              q.push(c);
          }
      }
  }
  \<close>
  \<open>visit_children\<close> is the inner \<open>for\<close> loop over the children of the dequeued id
  (it reads \<open>depth.get(p) ?? 0\<close> in every round, as the source does), \<open>bfs_loop\<close> the
  \<open>while\<close> loop on the pair of the depth map and the queue, and \<open>bfs_depth\<close> the
  depth map the loop leaves behind.
\<close>

definition depth_or_0 :: "'a depth_map \<Rightarrow> 'a \<Rightarrow> nat" where
  "depth_or_0 depth p = (case map_of depth p of Some d \<Rightarrow> d | None \<Rightarrow> 0)"

fun visit_children :: "'a \<Rightarrow> 'a list \<Rightarrow> 'a depth_map \<times> 'a list \<Rightarrow> 'a depth_map \<times> 'a list" where
  "visit_children p [] (depth, q) = (depth, q)"
| "visit_children p (c # cs) (depth, q) =
     (if \<not> map_has depth c
      then visit_children p cs (map_set depth c (depth_or_0 depth p + 1), q @ [c])
      else visit_children p cs (depth, q))"

text \<open>Every id that occurs as a child: the loop can only ever enqueue one of these.\<close>

definition adj_ids :: "'a adjacency \<Rightarrow> 'a set" where
  "adj_ids adjacency = (\<Union>(p, cs) \<in> set adjacency. set cs)"

lemma adj_get_ids: "set (adj_get adjacency p) \<subseteq> adj_ids adjacency"
proof (cases "map_of adjacency p")
  case None
  then show ?thesis by (simp add: adj_get_def)
next
  case (Some cs)
  then have "(p, cs) \<in> set adjacency" by (rule map_of_SomeD)
  then show ?thesis using Some by (auto simp: adj_get_def adj_ids_def)
qed

lemma visit_children_measure:
  assumes "set cs \<subseteq> U" "finite U" "visit_children p cs (depth, q) = (depth', q')"
  shows "card (U - fst ` set depth') < card (U - fst ` set depth)
         \<or> (fst ` set depth' = fst ` set depth \<and> q' = q)"
  using assms
proof (induction cs arbitrary: depth q)
  case Nil
  then show ?case by simp
next
  case (Cons c cs)
  show ?case
  proof (cases "map_has depth c")
    case True
    with Cons show ?thesis by simp
  next
    case False
    let ?d1 = "map_set depth c (depth_or_0 depth p + 1)"
    from False Cons.prems have v: "visit_children p cs (?d1, q @ [c]) = (depth', q')" by simp
    have cU: "c \<in> U" using Cons.prems by simp
    have cnot: "c \<notin> fst ` set depth" using False
      by (simp add: map_has_def map_of_eq_None_iff)
    have "U - fst ` set ?d1 \<subset> U - fst ` set depth"
      using cU cnot by (auto simp: keys_map_set)
    then have lt: "card (U - fst ` set ?d1) < card (U - fst ` set depth)"
      using Cons.prems(2) by (intro psubset_card_mono) auto
    from Cons.IH[OF _ Cons.prems(2) v] Cons.prems(1)
    have "card (U - fst ` set depth') < card (U - fst ` set ?d1)
         \<or> (fst ` set depth' = fst ` set ?d1 \<and> q' = q @ [c])" by simp
    with lt show ?thesis by auto
  qed
qed

lemma visit_children_decreases:
  "((adjacency, visit_children p (adj_get adjacency p) (depth, q)), (adjacency, depth, p # q))
     \<in> inv_image (less_than <*lex*> less_than)
         (\<lambda>(adjacency, depth, q). (card (adj_ids adjacency - fst ` set depth), length q))"
proof -
  obtain depth' q' where v: "visit_children p (adj_get adjacency p) (depth, q) = (depth', q')"
    by (cases "visit_children p (adj_get adjacency p) (depth, q)")
  have fin: "finite (adj_ids adjacency)" by (auto simp: adj_ids_def)
  from visit_children_measure[OF adj_get_ids fin v] show ?thesis by (auto simp: v)
qed

function bfs_loop :: "'a adjacency \<Rightarrow> 'a depth_map \<times> 'a list \<Rightarrow> 'a depth_map" where
  "bfs_loop adjacency (depth, []) = depth"
| "bfs_loop adjacency (depth, p # q) =
     bfs_loop adjacency (visit_children p (adj_get adjacency p) (depth, q))"
  by pat_completeness auto
termination
  by (relation "inv_image (less_than <*lex*> less_than)
         (\<lambda>(adjacency, depth, q). (card (adj_ids adjacency - fst ` set depth), length q))")
     (rule wf_inv_image wf_lex_prod wf_less_than visit_children_decreases)+

definition bfs_depth :: "'a adjacency \<Rightarrow> 'a \<Rightarrow> 'a depth_map" where
  "bfs_depth adjacency rootId = bfs_loop adjacency ([(rootId, 0)], [rootId])"

text \<open>
  Two observers of the same loop, used to count its rounds: \<open>bfs_step\<close> is one round of
  the \<open>while\<close> loop (no round is run on an empty queue), and \<open>bfs_order\<close> lists the
  ids in the order \<open>q.shift()\<close> hands them out.
\<close>

fun bfs_step :: "'a adjacency \<Rightarrow> 'a depth_map \<times> 'a list \<Rightarrow> 'a depth_map \<times> 'a list" where
  "bfs_step adjacency (depth, []) = (depth, [])"
| "bfs_step adjacency (depth, p # q) = visit_children p (adj_get adjacency p) (depth, q)"

function bfs_order :: "'a adjacency \<Rightarrow> 'a depth_map \<times> 'a list \<Rightarrow> 'a list" where
  "bfs_order adjacency (depth, []) = []"
| "bfs_order adjacency (depth, p # q) =
     p # bfs_order adjacency (visit_children p (adj_get adjacency p) (depth, q))"
  by pat_completeness auto
termination
  by (relation "inv_image (less_than <*lex*> less_than)
         (\<lambda>(adjacency, depth, q). (card (adj_ids adjacency - fst ` set depth), length q))")
     (rule wf_inv_image wf_lex_prod wf_less_than visit_children_decreases)+

text \<open>The graph of the adjacency, and the ids the root reaches in it.\<close>

definition edges :: "'a adjacency \<Rightarrow> ('a \<times> 'a) set" where
  "edges adjacency = {(p, c). c \<in> set (adj_get adjacency p)}"

definition reachable :: "'a adjacency \<Rightarrow> 'a \<Rightarrow> 'a set" where
  "reachable adjacency rootId = {v. (rootId, v) \<in> (edges adjacency)\<^sup>*}"

text \<open>A small adjacency with a cycle and an id reached along two paths.\<close>

definition cyclic_adjacency :: "string adjacency" where
  "cyclic_adjacency = [(''r'', [''a'', ''b'']), (''a'', [''b'', ''r'', ''c''])]"

subsection \<open>The inner loop\<close>

lemma visit_children_spec:
  assumes "map_of depth p = Some dp" "visit_children p cs (depth, q) = (depth', q')"
  shows "map_of depth' =
           (\<lambda>v. if v \<in> set cs \<and> map_of depth v = None then Some (dp + 1) else map_of depth v)
         \<and> (\<exists>new. q' = q @ new \<and> set new = set cs - dom (map_of depth) \<and> distinct new)"
  using assms
proof (induction cs arbitrary: depth q)
  case Nil
  then show ?case by simp
next
  case (Cons c cs)
  show ?case
  proof (cases "map_has depth c")
    case True
    then have "map_of depth c \<noteq> None" by (simp add: map_has_def)
    moreover from True Cons.prems have "visit_children p cs (depth, q) = (depth', q')" by simp
    note Cons.IH[OF Cons.prems(1) this]
    ultimately show ?thesis by (auto simp: fun_eq_iff)
  next
    case False
    let ?d1 = "map_set depth c (depth_or_0 depth p + 1)"
    have cnone: "map_of depth c = None" using False by (simp add: map_has_def)
    then have cp: "c \<noteq> p" using Cons.prems(1) by auto
    have dp: "depth_or_0 depth p = dp" using Cons.prems(1) by (simp add: depth_or_0_def)
    have d1: "map_of ?d1 = (map_of depth)(c \<mapsto> dp + 1)" by (simp add: map_of_map_set dp)
    have p1: "map_of ?d1 p = Some dp" using cp Cons.prems(1) unfolding d1 by simp
    from False Cons.prems have v: "visit_children p cs (?d1, q @ [c]) = (depth', q')" by simp
    from Cons.IH[OF p1 v] obtain new where
      m: "map_of depth' = (\<lambda>v. if v \<in> set cs \<and> map_of ?d1 v = None then Some (dp + 1) else map_of ?d1 v)"
      and n: "q' = (q @ [c]) @ new" "set new = set cs - dom (map_of ?d1)" "distinct new"
      by blast
    have "map_of depth' =
           (\<lambda>v. if v \<in> set (c # cs) \<and> map_of depth v = None then Some (dp + 1) else map_of depth v)"
      unfolding m d1 using cnone by (auto simp: fun_eq_iff)
    moreover have "q' = q @ (c # new)" using n by simp
    moreover have "set (c # new) = set (c # cs) - dom (map_of depth)"
      using n(2) cnone unfolding d1 by auto
    moreover have "distinct (c # new)" using n(2,3) unfolding d1 by auto
    ultimately show ?thesis by blast
  qed
qed

lemma visit_children_keys_mono:
  "fst ` set depth \<subseteq> fst ` set (fst (visit_children p cs (depth, q)))"
proof (induction cs arbitrary: depth q)
  case Nil
  then show ?case by simp
next
  case (Cons c cs)
  show ?case
  proof (cases "map_has depth c")
    case True
    then show ?thesis using Cons.IH[of depth q] by simp
  next
    case False
    have "fst ` set depth \<subseteq> fst ` set (map_set depth c (depth_or_0 depth p + 1))"
      unfolding keys_map_set by blast
    also have "\<dots> \<subseteq> fst ` set (fst (visit_children p cs (map_set depth c (depth_or_0 depth p + 1), q @ [c])))"
      by (rule Cons.IH)
    finally show ?thesis using False by simp
  qed
qed

subsection \<open>The loop invariant\<close>

text \<open>
  Every entry of the depth map is the length of a path from the root; depths along an
  edge grow by at most one; an id that has left the queue has all its children in the map;
  the queue is sorted by depth and no depth exceeds that of its head by more than one.
\<close>

definition bfs_inv :: "'a adjacency \<Rightarrow> 'a \<Rightarrow> 'a depth_map \<Rightarrow> 'a list \<Rightarrow> bool" where
  "bfs_inv adjacency rootId depth q \<longleftrightarrow>
     map_of depth rootId = Some 0
   \<and> set q \<subseteq> dom (map_of depth)
   \<and> (\<forall>v n. map_of depth v = Some n \<longrightarrow> (rootId, v) \<in> edges adjacency ^^ n)
   \<and> (\<forall>u w nu nw. (u, w) \<in> edges adjacency \<and> map_of depth u = Some nu \<and> map_of depth w = Some nw
         \<longrightarrow> nw \<le> nu + 1)
   \<and> (\<forall>u w. (u, w) \<in> edges adjacency \<and> u \<in> dom (map_of depth) \<and> u \<notin> set q
         \<longrightarrow> w \<in> dom (map_of depth))
   \<and> sorted (map (\<lambda>v. the (map_of depth v)) q)
   \<and> (\<forall>v n. q \<noteq> [] \<and> map_of depth v = Some n \<longrightarrow> n \<le> the (map_of depth (hd q)) + 1)"

lemma bfs_inv_init: "bfs_inv adjacency rootId [(rootId, 0)] [rootId]"
  by (auto simp: bfs_inv_def split: if_splits)

lemma bfs_inv_step:
  assumes inv: "bfs_inv adjacency rootId depth (p # rest)"
    and v: "visit_children p (adj_get adjacency p) (depth, rest) = (depth', q')"
  shows "bfs_inv adjacency rootId depth' q'"
proof -
  let ?D = "map_of depth" and ?D' = "map_of depth'" and ?E = "edges adjacency"
  let ?cs = "adj_get adjacency p"
  from inv have i1: "?D rootId = Some 0"
    and i2: "set (p # rest) \<subseteq> dom ?D"
    and i3: "\<And>v n. ?D v = Some n \<Longrightarrow> (rootId, v) \<in> ?E ^^ n"
    and i4: "\<And>u w nu nw. (u, w) \<in> ?E \<Longrightarrow> ?D u = Some nu \<Longrightarrow> ?D w = Some nw \<Longrightarrow> nw \<le> nu + 1"
    and i5: "\<And>u w. (u, w) \<in> ?E \<Longrightarrow> u \<in> dom ?D \<Longrightarrow> u \<notin> set (p # rest) \<Longrightarrow> w \<in> dom ?D"
    and i6: "sorted (map (\<lambda>v. the (?D v)) (p # rest))"
    and i7: "\<And>v n. ?D v = Some n \<Longrightarrow> n \<le> the (?D p) + 1"
    unfolding bfs_inv_def by auto
  from i2 obtain dp where dp: "?D p = Some dp" by auto
  from visit_children_spec[OF dp v] obtain new where
    D': "\<And>x. ?D' x = (if x \<in> set ?cs \<and> ?D x = None then Some (dp + 1) else ?D x)"
    and q': "q' = rest @ new" and new: "set new = set ?cs - dom ?D" and dn: "distinct new"
    by (auto simp: fun_eq_iff)
  have old: "\<And>x n. ?D x = Some n \<Longrightarrow> ?D' x = Some n" by (simp add: D')
  have newv: "\<And>x. x \<in> set new \<Longrightarrow> ?D' x = Some (dp + 1) \<and> ?D x = None"
    using new by (auto simp: D')
  have cases': "\<And>x n. ?D' x = Some n \<Longrightarrow> ?D x = Some n \<or> (x \<in> set new \<and> n = dp + 1)"
    using new by (auto simp: D' split: if_splits)
  have pE: "\<And>c. (p, c) \<in> ?E \<longleftrightarrow> c \<in> set ?cs" by (simp add: edges_def)
  have restv: "\<And>x. x \<in> set rest \<Longrightarrow> \<exists>n. ?D x = Some n \<and> dp \<le> n \<and> n \<le> dp + 1"
  proof -
    fix x assume x: "x \<in> set rest"
    with i2 obtain n where n: "?D x = Some n" by auto
    from i6 x have "the (?D p) \<le> the (?D x)" by auto
    with dp n have "dp \<le> n" by simp
    moreover from i7[OF n] dp have "n \<le> dp + 1" by simp
    ultimately show "\<exists>n. ?D x = Some n \<and> dp \<le> n \<and> n \<le> dp + 1" using n by blast
  qed
  have c1: "?D' rootId = Some 0" using i1 by (rule old)
  have c2: "set q' \<subseteq> dom ?D'"
  proof
    fix x assume "x \<in> set q'"
    then consider "x \<in> set rest" | "x \<in> set new" using q' by auto
    then show "x \<in> dom ?D'"
    proof cases
      case 1 with restv obtain n where "?D x = Some n" by blast
      then show ?thesis using old by blast
    next
      case 2 then show ?thesis using newv by blast
    qed
  qed
  have c3: "\<And>x n. ?D' x = Some n \<Longrightarrow> (rootId, x) \<in> ?E ^^ n"
  proof -
    fix x n assume "?D' x = Some n"
    from cases'[OF this] show "(rootId, x) \<in> ?E ^^ n"
    proof
      assume "?D x = Some n" then show ?thesis by (rule i3)
    next
      assume a: "x \<in> set new \<and> n = dp + 1"
      then have "(p, x) \<in> ?E" using new pE by auto
      moreover have "(rootId, p) \<in> ?E ^^ dp" using dp by (rule i3)
      ultimately have "(rootId, x) \<in> ?E ^^ (Suc dp)" by auto
      then show ?thesis using a by simp
    qed
  qed
  have c4: "\<And>u w nu nw. (u, w) \<in> ?E \<Longrightarrow> ?D' u = Some nu \<Longrightarrow> ?D' w = Some nw \<Longrightarrow> nw \<le> nu + 1"
  proof -
    fix u w nu nw assume e: "(u, w) \<in> ?E" and u: "?D' u = Some nu" and w: "?D' w = Some nw"
    from cases'[OF w] show "nw \<le> nu + 1"
    proof
      assume wo: "?D w = Some nw"
      from cases'[OF u] show ?thesis
      proof
        assume "?D u = Some nu" then show ?thesis using i4[OF e _ wo] by simp
      next
        assume "u \<in> set new \<and> nu = dp + 1"
        moreover have "nw \<le> dp + 1" using i7[OF wo] dp by simp
        ultimately show ?thesis by simp
      qed
    next
      assume wn: "w \<in> set new \<and> nw = dp + 1"
      then have wnone: "?D w = None" using newv by blast
      from cases'[OF u] show ?thesis
      proof
        assume uo: "?D u = Some nu"
        have "u \<in> set (p # rest)"
        proof (rule ccontr)
          assume "u \<notin> set (p # rest)"
          from i5[OF e _ this] uo have "w \<in> dom ?D" by auto
          with wnone show False by auto
        qed
        then have "dp \<le> nu" using restv[of u] dp uo by auto
        then show ?thesis using wn by simp
      next
        assume "u \<in> set new \<and> nu = dp + 1"
        then show ?thesis using wn by simp
      qed
    qed
  qed
  have c5: "\<And>u w. (u, w) \<in> ?E \<Longrightarrow> u \<in> dom ?D' \<Longrightarrow> u \<notin> set q' \<Longrightarrow> w \<in> dom ?D'"
  proof -
    fix u w assume e: "(u, w) \<in> ?E" and u: "u \<in> dom ?D'" and nq: "u \<notin> set q'"
    from u obtain nu where "?D' u = Some nu" by auto
    from cases'[OF this] nq q' have uo: "?D u = Some nu" by auto
    show "w \<in> dom ?D'"
    proof (cases "u = p")
      case True
      then have "w \<in> set ?cs" using e pE by simp
      then show ?thesis by (auto simp: D')
    next
      case False
      then have "u \<notin> set (p # rest)" using nq q' by simp
      from i5[OF e _ this] uo obtain n where "?D w = Some n" by auto
      then show ?thesis using old by blast
    qed
  qed
  have vals: "\<And>x. x \<in> set rest \<Longrightarrow> the (?D' x) = the (?D x)"
    using restv old by fastforce
  have c6: "sorted (map (\<lambda>v. the (?D' v)) q')"
  proof -
    have e1: "map (\<lambda>v. the (?D' v)) rest = map (\<lambda>v. the (?D v)) rest" using vals by simp
    have "sorted (map (\<lambda>v. the (?D v)) rest)" using i6 by simp
    then have s1: "sorted (map (\<lambda>v. the (?D' v)) rest)" by (simp only: e1)
    have e2: "map (\<lambda>v. the (?D' v)) new = map (\<lambda>v. dp + 1) new" using newv by simp
    have "sorted (map (\<lambda>v. dp + 1) new)" by (induction new) auto
    then have s2: "sorted (map (\<lambda>v. the (?D' v)) new)" by (simp only: e2)
    have "\<forall>x\<in>set rest. \<forall>y\<in>set new. the (?D' x) \<le> the (?D' y)"
      using restv newv vals by fastforce
    with s1 s2 show ?thesis unfolding q' by (simp add: sorted_append)
  qed
  have c7: "\<And>x n. q' \<noteq> [] \<Longrightarrow> ?D' x = Some n \<Longrightarrow> n \<le> the (?D' (hd q')) + 1"
  proof -
    fix x n assume ne: "q' \<noteq> []" and x: "?D' x = Some n"
    have n: "n \<le> dp + 1" using cases'[OF x] i7 dp by fastforce
    have "hd q' \<in> set q'" using ne by simp
    then have "dp \<le> the (?D' (hd q'))" unfolding q' using restv newv vals by fastforce
    with n show "n \<le> the (?D' (hd q')) + 1" by simp
  qed
  show ?thesis unfolding bfs_inv_def using c1 c2 c3 c4 c5 c6 c7 by blast
qed

lemma bfs_loop_inv:
  "bfs_inv adjacency rootId depth q \<Longrightarrow> bfs_inv adjacency rootId (bfs_loop adjacency (depth, q)) []"
proof (induction adjacency "(depth, q)" arbitrary: depth q rule: bfs_loop.induct)
  case (1 adjacency depth)
  then show ?case by simp
next
  case (2 adjacency depth p q)
  obtain depth' q' where v: "visit_children p (adj_get adjacency p) (depth, q) = (depth', q')"
    by (cases "visit_children p (adj_get adjacency p) (depth, q)")
  from bfs_inv_step[OF "2.prems" v] have "bfs_inv adjacency rootId depth' q'" .
  from "2.hyps"[OF v this] show ?case by (simp add: v)
qed

lemma bfs_inv_final:
  assumes inv: "bfs_inv adjacency rootId depth []"
    and r: "(rootId, v) \<in> (edges adjacency)\<^sup>*"
  shows "map_of depth v = Some (LEAST n. (rootId, v) \<in> edges adjacency ^^ n)"
proof -
  let ?D = "map_of depth" and ?E = "edges adjacency"
  from inv have i1: "?D rootId = Some 0"
    and i3: "\<And>v n. ?D v = Some n \<Longrightarrow> (rootId, v) \<in> ?E ^^ n"
    and i4: "\<And>u w nu nw. (u, w) \<in> ?E \<Longrightarrow> ?D u = Some nu \<Longrightarrow> ?D w = Some nw \<Longrightarrow> nw \<le> nu + 1"
    and i5: "\<And>u w. (u, w) \<in> ?E \<Longrightarrow> u \<in> dom ?D \<Longrightarrow> w \<in> dom ?D"
    unfolding bfs_inv_def by auto
  have low: "(rootId, x) \<in> ?E ^^ m \<Longrightarrow> \<exists>n. ?D x = Some n \<and> n \<le> m" for m x
  proof (induction m arbitrary: x)
    case 0
    then show ?case using i1 by simp
  next
    case (Suc m)
    then obtain u where u: "(rootId, u) \<in> ?E ^^ m" and e: "(u, x) \<in> ?E" by auto
    from Suc.IH[OF u] obtain nu where nu: "?D u = Some nu" "nu \<le> m" by blast
    from i5[OF e] nu obtain nx where nx: "?D x = Some nx" by auto
    from i4[OF e nu(1) nx] nu(2) nx show ?case by simp
  qed
  from r obtain m where "(rootId, v) \<in> ?E ^^ m" by (auto simp: rtrancl_power)
  from low[OF this] obtain n where n: "?D v = Some n" by blast
  have "(LEAST k. (rootId, v) \<in> ?E ^^ k) = n"
  proof (rule Least_equality)
    show "(rootId, v) \<in> ?E ^^ n" using n by (rule i3)
  next
    fix k assume "(rootId, v) \<in> ?E ^^ k"
    from low[OF this] n show "n \<le> k" by simp
  qed
  with n show ?thesis by simp
qed

lemma bfs_loop_keys_mono:
  "fst ` set depth \<subseteq> fst ` set (bfs_loop adjacency (depth, q))"
proof (induction adjacency "(depth, q)" arbitrary: depth q rule: bfs_loop.induct)
  case (1 adjacency depth)
  then show ?case by simp
next
  case (2 adjacency depth p q)
  obtain depth' q' where v: "visit_children p (adj_get adjacency p) (depth, q) = (depth', q')"
    by (cases "visit_children p (adj_get adjacency p) (depth, q)")
  have "fst ` set depth \<subseteq> fst ` set depth'"
    using visit_children_keys_mono[of depth p "adj_get adjacency p" q] by (simp add: v)
  also have "\<dots> \<subseteq> fst ` set (bfs_loop adjacency (depth', q'))"
    by (rule "2.hyps"[OF v])
  finally show ?case by (simp add: v)
qed

lemma edges_ids: "(u, w) \<in> edges adjacency \<Longrightarrow> w \<in> adj_ids adjacency"
  using adj_get_ids[of adjacency u] by (auto simp: edges_def)

lemma reachable_subset: "reachable adjacency rootId \<subseteq> insert rootId (adj_ids adjacency)"
proof
  fix v assume "v \<in> reachable adjacency rootId"
  then have "(rootId, v) \<in> (edges adjacency)\<^sup>*" by (simp add: reachable_def)
  then show "v \<in> insert rootId (adj_ids adjacency)"
    by (cases rule: rtranclE) (auto dest: edges_ids)
qed

lemma finite_reachable: "finite (reachable adjacency rootId)"
proof (rule finite_subset[OF reachable_subset])
  show "finite (insert rootId (adj_ids adjacency))" by (auto simp: adj_ids_def)
qed

lemma bfs_inv_dom_reachable:
  assumes "bfs_inv adjacency rootId depth q"
  shows "dom (map_of depth) \<subseteq> reachable adjacency rootId"
proof
  fix v assume "v \<in> dom (map_of depth)"
  then obtain n where "map_of depth v = Some n" by auto
  with assms have "(rootId, v) \<in> edges adjacency ^^ n" by (auto simp: bfs_inv_def)
  then show "v \<in> reachable adjacency rootId"
    unfolding reachable_def using relpow_imp_rtrancl by fast
qed

lemma bfs_inv_final_dom:
  assumes "bfs_inv adjacency rootId depth []"
  shows "dom (map_of depth) = reachable adjacency rootId"
proof
  show "dom (map_of depth) \<subseteq> reachable adjacency rootId"
    using assms by (rule bfs_inv_dom_reachable)
  show "reachable adjacency rootId \<subseteq> dom (map_of depth)"
    using bfs_inv_final[OF assms] by (auto simp: reachable_def)
qed

lemma bfs_order_steps:
  "(bfs_step adjacency ^^ length (bfs_order adjacency s)) s = (bfs_loop adjacency s, [])"
proof (induction adjacency s rule: bfs_order.induct)
  case (1 adjacency depth)
  then show ?case by simp
next
  case (2 adjacency depth p q)
  then show ?case by (simp add: funpow_swap1)
qed

lemma bfs_order_running:
  "m < length (bfs_order adjacency s) \<Longrightarrow>
     (\<exists>depth' q'. (bfs_step adjacency ^^ m) s = (depth', bfs_order adjacency s ! m # q'))"
proof (induction adjacency s arbitrary: m rule: bfs_order.induct)
  case (1 adjacency depth)
  then show ?case by simp
next
  case (2 adjacency depth p q)
  show ?case
  proof (cases m)
    case 0
    then show ?thesis by simp
  next
    case (Suc k)
    with "2.prems" have "k < length (bfs_order adjacency (visit_children p (adj_get adjacency p) (depth, q)))"
      by simp
    from "2.IH"[OF this] show ?thesis using Suc by (simp add: funpow_swap1)
  qed
qed

text \<open>The ids dequeued from a state onwards are pairwise distinct and are exactly the
  queued ids together with the ids that enter the depth map later.\<close>

lemma bfs_order_set:
  assumes "distinct q" "set q \<subseteq> dom (map_of depth)"
  shows "distinct (bfs_order adjacency (depth, q))
       \<and> set (bfs_order adjacency (depth, q))
           = set q \<union> (dom (map_of (bfs_loop adjacency (depth, q))) - dom (map_of depth))"
  using assms
proof (induction adjacency "(depth, q)" arbitrary: depth q rule: bfs_order.induct)
  case (1 adjacency depth)
  then show ?case by simp
next
  case (2 adjacency depth p q)
  let ?cs = "adj_get adjacency p"
  obtain depth' q' where v: "visit_children p ?cs (depth, q) = (depth', q')"
    by (cases "visit_children p ?cs (depth, q)")
  from "2.prems" obtain dp where dp: "map_of depth p = Some dp" by auto
  from visit_children_spec[OF dp v] obtain new where
    D': "\<And>x. map_of depth' x = (if x \<in> set ?cs \<and> map_of depth x = None then Some (dp + 1) else map_of depth x)"
    and q': "q' = q @ new" and new: "set new = set ?cs - dom (map_of depth)" and dn: "distinct new"
    by (auto simp: fun_eq_iff)
  have dom': "dom (map_of depth') = dom (map_of depth) \<union> set new"
    using new by (auto simp: D' split: if_splits)
  have dq: "distinct q'" using "2.prems" dn new unfolding q' by auto
  have sq: "set q' \<subseteq> dom (map_of depth')" using "2.prems" unfolding q' dom' by auto
  from "2.hyps"[OF v dq sq] have
    IHd: "distinct (bfs_order adjacency (depth', q'))"
    and IHs: "set (bfs_order adjacency (depth', q'))
        = set q' \<union> (dom (map_of (bfs_loop adjacency (depth', q'))) - dom (map_of depth'))"
    by auto
  have pn: "p \<notin> set q'" using "2.prems" new dp unfolding q' by auto
  have pd: "p \<in> dom (map_of depth')" using dp unfolding dom' by auto
  have mono: "dom (map_of depth') \<subseteq> dom (map_of (bfs_loop adjacency (depth', q')))"
    using bfs_loop_keys_mono[of depth' adjacency q'] by (simp add: dom_map_of_conv_image_fst)
  have "distinct (p # bfs_order adjacency (depth', q'))"
    using IHd IHs pn pd by auto
  moreover have "set (p # bfs_order adjacency (depth', q'))
      = set (p # q) \<union> (dom (map_of (bfs_loop adjacency (depth', q'))) - dom (map_of depth))"
    using IHs "2.prems" new mono unfolding q' dom' by auto
  ultimately show ?case by (simp add: v)
qed

subsection \<open>Depth is shortest-path distance\<close>

text \<open>
  Claim C1. For every adjacency and root id, the depth that the breadth-first loop of
  \<open>buildTree\<close> assigns to a node reachable from the root is the length of the shortest
  path from the root to that node: the least \<open>n\<close> such that \<open>n\<close> edges lead from
  the root to it.
\<close>

theorem bfs_depth_shortest_path:
  assumes "(rootId, v) \<in> (edges adjacency)\<^sup>*"
  shows "map_of (bfs_depth adjacency rootId) v = Some (LEAST n. (rootId, v) \<in> edges adjacency ^^ n)"
  unfolding bfs_depth_def
  by (rule bfs_inv_final[OF bfs_loop_inv[OF bfs_inv_init] assms])

lemma bfs_depth_cyclic_adjacency:
  "bfs_depth cyclic_adjacency ''r'' = [(''r'', 0), (''a'', 1), (''b'', 1), (''c'', 2)]"
  by (simp add: bfs_depth_def cyclic_adjacency_def adj_get_def map_has_def depth_or_0_def)

theorem bfs_depth_shortest_path_witness:
  "(''r'', ''c'') \<in> (edges cyclic_adjacency)\<^sup>*
   \<and> map_of (bfs_depth cyclic_adjacency ''r'') ''c'' = Some 2
   \<and> (LEAST n. (''r'', ''c'') \<in> edges cyclic_adjacency ^^ n) = 2"
proof -
  have "(''r'', ''a'') \<in> edges cyclic_adjacency" "(''a'', ''c'') \<in> edges cyclic_adjacency"
    by (simp_all add: edges_def cyclic_adjacency_def adj_get_def)
  then have r: "(''r'', ''c'') \<in> (edges cyclic_adjacency)\<^sup>*" by (meson rtrancl.simps)
  from bfs_depth_shortest_path[OF r] r show ?thesis
    by (simp add: bfs_depth_cyclic_adjacency)
qed

subsection \<open>Termination and the number of rounds\<close>

text \<open>
  Claim C8. The breadth-first depth computation terminates for every adjacency, cycles
  and ids reachable along several paths included: the ids handed out by \<open>q.shift()\<close> are
  pairwise distinct and are exactly the ids reachable from the root, so the loop dequeues
  once per reachable id, and after that many rounds the queue is empty and the depth map
  is the one \<open>buildTree\<close> goes on with.
\<close>

theorem bfs_terminates_one_dequeue_per_id:
  "distinct (bfs_order adjacency ([(rootId, 0)], [rootId]))
   \<and> set (bfs_order adjacency ([(rootId, 0)], [rootId])) = reachable adjacency rootId
   \<and> length (bfs_order adjacency ([(rootId, 0)], [rootId])) = card (reachable adjacency rootId)
   \<and> (bfs_step adjacency ^^ card (reachable adjacency rootId)) ([(rootId, 0)], [rootId])
       = (bfs_depth adjacency rootId, [])"
proof -
  let ?s = "([(rootId, 0)], [rootId])"
  have fin: "dom (map_of (bfs_loop adjacency ?s)) = reachable adjacency rootId"
    by (rule bfs_inv_final_dom[OF bfs_loop_inv[OF bfs_inv_init]])
  have "rootId \<in> reachable adjacency rootId" by (simp add: reachable_def)
  with bfs_order_set[of "[rootId]" "[(rootId, 0)]" adjacency] fin
  have d: "distinct (bfs_order adjacency ?s)"
    and s: "set (bfs_order adjacency ?s) = reachable adjacency rootId"
    by auto
  from d s have l: "length (bfs_order adjacency ?s) = card (reachable adjacency rootId)"
    using distinct_card by fastforce
  have "(bfs_step adjacency ^^ card (reachable adjacency rootId)) ?s = (bfs_depth adjacency rootId, [])"
    using bfs_order_steps[of adjacency ?s] unfolding l bfs_depth_def .
  with l d s show ?thesis by blast
qed

theorem bfs_terminates_one_dequeue_per_id_witness:
  "bfs_order cyclic_adjacency ([(''r'', 0)], [''r'']) = [''r'', ''a'', ''b'', ''c'']
   \<and> card (reachable cyclic_adjacency ''r'') = 4
   \<and> (bfs_step cyclic_adjacency ^^ 4) ([(''r'', 0)], [''r''])
       = (bfs_depth cyclic_adjacency ''r'', [])"
proof -
  have o: "bfs_order cyclic_adjacency ([(''r'', 0)], [''r'']) = [''r'', ''a'', ''b'', ''c'']"
    by (simp add: cyclic_adjacency_def adj_get_def map_has_def depth_or_0_def)
  note t = bfs_terminates_one_dequeue_per_id[of cyclic_adjacency "''r''", unfolded o]
  from t have c: "card (reachable cyclic_adjacency ''r'') = 4" by simp
  from t have "(bfs_step cyclic_adjacency ^^ 4) ([(''r'', 0)], [''r''])
       = (bfs_depth cyclic_adjacency ''r'', [])" unfolding c by blast
  with o c show ?thesis by blast
qed

section \<open>JavaScript numbers\<close>

text \<open>
  Coordinates, forces and velocities are JavaScript numbers. The model idealises a finite
  number as a real (no rounding, no overflow) and has one further value, \<open>None\<close>, for
  a result that is not a finite number: \<open>NaN\<close>, which arithmetic on \<open>undefined\<close>
  yields, and the outcome of a division by zero. Arithmetic propagates \<open>None\<close>, and a
  comparison with \<open>None\<close> is false, as a comparison with \<open>NaN\<close> is.
\<close>

type_synonym jsnum = "real option"
type_synonym vec = "jsnum \<times> jsnum"

definition js_lift2 :: "(real \<Rightarrow> real \<Rightarrow> real) \<Rightarrow> jsnum \<Rightarrow> jsnum \<Rightarrow> jsnum" where
  "js_lift2 f a b = (case a of None \<Rightarrow> None | Some x \<Rightarrow> (case b of None \<Rightarrow> None | Some y \<Rightarrow> Some (f x y)))"

definition js_add :: "jsnum \<Rightarrow> jsnum \<Rightarrow> jsnum" where "js_add = js_lift2 (+)"
definition js_sub :: "jsnum \<Rightarrow> jsnum \<Rightarrow> jsnum" where "js_sub = js_lift2 (-)"
definition js_mul :: "jsnum \<Rightarrow> jsnum \<Rightarrow> jsnum" where "js_mul = js_lift2 (*)"
definition js_max :: "jsnum \<Rightarrow> jsnum \<Rightarrow> jsnum" where "js_max = js_lift2 max"
definition js_neg :: "jsnum \<Rightarrow> jsnum" where "js_neg = map_option uminus"
definition js_sqrt :: "jsnum \<Rightarrow> jsnum" where
  "js_sqrt a = (case a of None \<Rightarrow> None | Some x \<Rightarrow> if x < 0 then None else Some (sqrt x))"
definition js_div :: "jsnum \<Rightarrow> jsnum \<Rightarrow> jsnum" where
  "js_div a b = (case a of None \<Rightarrow> None | Some x \<Rightarrow>
                  (case b of None \<Rightarrow> None | Some y \<Rightarrow> if y = 0 then None else Some (x / y)))"
definition js_gt :: "jsnum \<Rightarrow> jsnum \<Rightarrow> bool" where
  "js_gt a b = (case a of None \<Rightarrow> False | Some x \<Rightarrow> (case b of None \<Rightarrow> False | Some y \<Rightarrow> x > y))"

section \<open>Configuration\<close>

text \<open>The constant table \<open>CFG\<close> of \<open>tree.ts\<close>.\<close>

record spring_opt =
  length_opt :: real
  stiffness_opt :: real
  damping_opt :: real

definition CFG_nodeRadius :: real where "CFG_nodeRadius = 12"
definition CFG_twigRadius :: real where "CFG_twigRadius = 4"
definition CFG_leafRadius :: real where "CFG_leafRadius = 8"
definition CFG_airFriction :: real where "CFG_airFriction = 0.05"
definition CFG_spring :: spring_opt where
  "CFG_spring = \<lparr>length_opt = 80, stiffness_opt = 0.03, damping_opt = 0.3\<rparr>"
definition CFG_leafSpring :: spring_opt where
  "CFG_leafSpring = \<lparr>length_opt = 15, stiffness_opt = 0.01, damping_opt = 0.6\<rparr>"

definition CFG_repulsion_k :: real where "CFG_repulsion_k = 1"
definition CFG_repulsion_min :: real where "CFG_repulsion_min = 26"
definition CFG_repulsion_max :: real where "CFG_repulsion_max = 240"

section \<open>Bodies, constraints and tree nodes\<close>

text \<open>
  A body of the physics engine, with the fields the program sets or reads. Bodies are
  objects with identity: the builder keeps them in a heap (a list, a reference being an
  index), so that a body shared by a cache entry, tree nodes and the world is one object.
  \<open>Bodies_circle\<close> is the engine's factory as the program calls it: position, radius and
  the options \<open>frictionAir\<close>, \<open>render\<close> and \<open>collisionFilter.group\<close>; a new body is at
  rest and carries no force.
\<close>

record body =
  label :: string
  position :: vec
  circleRadius :: real
  frictionAir :: real
  fillStyle :: string
  strokeStyle :: string
  lineWidth :: real
  collisionFilter_group :: int
  velocity :: vec
  force :: vec

definition Bodies_circle :: "jsnum \<Rightarrow> jsnum \<Rightarrow> real \<Rightarrow> real \<Rightarrow> string \<Rightarrow> string \<Rightarrow> real \<Rightarrow> int \<Rightarrow> body" where
  "Bodies_circle x y r fa fill stroke lw g =
     \<lparr>label = ''Circle Body'', position = (x, y), circleRadius = r, frictionAir = fa,
      fillStyle = fill, strokeStyle = stroke, lineWidth = lw, collisionFilter_group = g,
      velocity = (Some 0, Some 0), force = (Some 0, Some 0)\<rparr>"

text \<open>
  \<open>Body.applyForce(b, b.position, f)\<close> adds \<open>f\<close> to the force the body has
  accumulated; applied at the body's own position it adds no torque.
\<close>

definition applyForce :: "body \<Rightarrow> vec \<Rightarrow> body" where
  "applyForce b f = b\<lparr>force := (js_add (fst (force b)) (fst f), js_add (snd (force b)) (snd f))\<rparr>"

text \<open>
  A constraint as \<open>Constraint.create\<close> receives it: a spring between two bodies (or, for
  the pin of the root, between a fixed point and a body) with its rendering options.
\<close>

datatype constraint_render = Stroke string real | Hidden

record constraint =
  bodyA :: "nat option"
  pointA :: "vec option"
  bodyB :: nat
  length_c :: real
  stiffness :: real
  damping :: real
  render :: constraint_render

text \<open>
  \<^verbatim>\<open>
  class TreeNode {
      constructor(id, body) { this.id = id; this.body = body; this.children = []; this.edges = []; }
      addChild(child, opt = CFG.spring, isLeaf = false) {
          this.children.push(child);
          const c = Constraint.create({bodyA: this.body, bodyB: child.body,
              length: opt.length, stiffness: opt.stiffness, damping: opt.damping,
              render: {strokeStyle: isLeaf ? '#4a9d4a' : '#6af08e', lineWidth: isLeaf ? 1 : 2}});
          this.edges.push(c);
          return c;
      }
      traverse(fn) { fn(this); for (const ch of this.children) ch.traverse(fn); }
  }
  \<close>
  A node is finished before it is pushed to its parent, so nodes are values. \<open>addChild\<close>
  returns the constraint together with the updated receiver; \<open>traverse\<close> lists the nodes
  in the order in which the callback sees them.
\<close>

datatype tree_node = TreeNode (node_id: string) (node_body: nat) (children: "tree_node list") (node_edges: "constraint list")

definition addChild :: "tree_node \<Rightarrow> tree_node \<Rightarrow> spring_opt \<Rightarrow> bool \<Rightarrow> constraint \<times> tree_node" where
  "addChild this child opt isLeaf =
     (let c = \<lparr>bodyA = Some (node_body this), pointA = None, bodyB = node_body child,
                length_c = length_opt opt, stiffness = stiffness_opt opt, damping = damping_opt opt,
                render = Stroke (if isLeaf then ''#4a9d4a'' else ''#6af08e'') (if isLeaf then 1 else 2)\<rparr>
      in (c, TreeNode (node_id this) (node_body this) (children this @ [child]) (node_edges this @ [c])))"

fun traverse :: "tree_node \<Rightarrow> tree_node list" where
  "traverse (TreeNode i b cs es) = TreeNode i b cs es # concat (map traverse cs)"

section \<open>The tree builder\<close>

text \<open>
  The state that \<open>buildTree\<close> and its helpers work on: the heap of bodies, the world's
  bodies and constraints, the fields \<open>nodeBodies\<close>, \<open>nodes\<close>, \<open>root\<close> and \<open>rootPin\<close> of
  the \<open>TreePhysics\<close> object, the number of \<open>Math.random()\<close> calls made so far, and the
  two maps \<open>idxByDepth\<close> and \<open>bodyCache\<close> that are local to \<open>buildTree\<close> and
  captured by its closures.
\<close>

record scene =
  heap :: "body list"
  world_bodies :: "nat list"
  world_constraints :: "constraint list"
  nodeBodies :: "nat list"
  nodes :: "tree_node list"
  root :: "tree_node option"
  rootPin :: "constraint option"
  randoms :: nat
  idxByDepth :: "(nat \<times> nat) list"
  bodyCache :: "(string \<times> nat) list"

text \<open>
  What the program takes from its surroundings: the canvas size, the values
  \<open>Math.random()\<close> returns (call by call), the collision group of a freshly made circle
  body (\<open>Bodies.circle(0, 0, 1).collisionFilter.group\<close>) and the value
  \<open>Body.nextGroup(true)\<close> would return. The closures of \<open>buildTree\<close> see, besides
  these, the adjacency, the depth map, the per-depth counts and the collision group.
\<close>

record env =
  canvas_width :: real
  canvas_height :: real
  Math_random :: "nat \<Rightarrow> real"
  probe_group :: int
  next_group :: int

record closure = env +
  adjacency :: "string adjacency"
  depth :: "string depth_map"
  counts :: "(nat \<times> nat) list"
  group :: int

text \<open>The decimal digits of \<open>i\<close>, as a template literal prints a small non-negative integer.\<close>

function nat_str :: "nat \<Rightarrow> string" where
  "nat_str n = (if n < 10 then [''0123456789'' ! n]
                else nat_str (n div 10) @ [''0123456789'' ! (n mod 10)])"
  by pat_completeness auto
termination
  by (relation "measure id") auto

declare nat_str.simps [simp del]

text \<open>Creating a body puts it on the heap; \<open>Math.random()\<close> hands out the next value.\<close>

definition alloc :: "body \<Rightarrow> scene \<Rightarrow> nat \<times> scene" where
  "alloc b s = (length (heap s), s\<lparr>heap := heap s @ [b]\<rparr>)"

definition random_next :: "closure \<Rightarrow> scene \<Rightarrow> real \<times> scene" where
  "random_next cl s = (Math_random cl (randoms s), s\<lparr>randoms := Suc (randoms s)\<rparr>)"

definition center :: "closure \<Rightarrow> real \<times> real" where
  "center cl = (canvas_width cl * 0.5, canvas_height cl * 0.5)"

text \<open>\<open>depth.get(id) > 0\<close>, false for an id the depth map does not hold.\<close>

definition positive_in :: "'a depth_map \<Rightarrow> 'a \<Rightarrow> bool" where
  "positive_in dm ident = (case map_of dm ident of Some d \<Rightarrow> d > 0 | None \<Rightarrow> False)"

definition depth_positive :: "closure \<Rightarrow> string \<Rightarrow> bool" where
  "depth_positive cl ident = positive_in (depth cl) ident"

text \<open>
  \<^verbatim>\<open>
  const makeBody = (id) => {
      const d = depth.get(id) ?? 0;
      const k = idxByDepth.get(d) || 0;
      idxByDepth.set(d, k + 1);
      const slots = counts.get(d);
      const spreadWidth = this.render.canvas.width * 0.6;
      const nodePosition = ((k + 1) / (slots + 1)) * spreadWidth;
      const x = this.center.x - spreadWidth * 0.5 + nodePosition;
      const y = this.render.canvas.height - 120 - d * 90;
      const b = Bodies.circle(x, y, CFG.nodeRadius, {frictionAir: CFG.airFriction,
          render: {fillStyle: '#75d7ff', strokeStyle: '#dff6ff', lineWidth: 1.5},
          collisionFilter: {group}});
      b.label = id;
      return b;
  };
  const bodyCache = new Map();
  const getBody = (id) =>
      bodyCache.get(id) || (bodyCache.set(id, makeBody(id)), bodyCache.get(id));
  \<close>
  \<open>makeBody_body\<close> is the body \<open>b\<close> that \<open>makeBody\<close> returns; \<open>makeBody\<close> also
  advances \<open>idxByDepth\<close>. \<open>getBody\<close> returns the cached reference, or makes the body,
  stores it and returns the entry just stored.
\<close>

definition makeBody_body :: "closure \<Rightarrow> string \<Rightarrow> scene \<Rightarrow> body" where
  "makeBody_body cl ident s =
     (let d = depth_or_0 (depth cl) ident;
          k = (case map_of (idxByDepth s) d of Some k \<Rightarrow> k | None \<Rightarrow> 0);
          slots = map_option real (map_of (counts cl) d);
          spreadWidth = canvas_width cl * 0.6;
          nodePosition = js_mul (js_div (Some (real (k + 1))) (js_add slots (Some 1))) (Some spreadWidth);
          x = js_add (Some (fst (center cl) - spreadWidth * 0.5)) nodePosition;
          y = Some (canvas_height cl - 120 - real d * 90);
          b = Bodies_circle x y CFG_nodeRadius CFG_airFriction ''#75d7ff'' ''#dff6ff'' 1.5 (group cl)
      in b\<lparr>label := ident\<rparr>)"

definition makeBody :: "closure \<Rightarrow> string \<Rightarrow> scene \<Rightarrow> nat \<times> scene" where
  "makeBody cl ident s =
     (let d = depth_or_0 (depth cl) ident;
          k = (case map_of (idxByDepth s) d of Some k \<Rightarrow> k | None \<Rightarrow> 0)
      in alloc (makeBody_body cl ident s) (s\<lparr>idxByDepth := map_set (idxByDepth s) d (k + 1)\<rparr>))"

definition getBody :: "closure \<Rightarrow> string \<Rightarrow> scene \<Rightarrow> nat \<times> scene" where
  "getBody cl ident s =
     (case map_of (bodyCache s) ident of
        Some b \<Rightarrow> (b, s)
      | None \<Rightarrow>
          (let (b, s1) = makeBody cl ident s
           in (b, s1\<lparr>bodyCache := map_set (bodyCache s1) ident b\<rparr>)))"

text \<open>
  \<open>World.add\<close> appends bodies and constraints to the world. The two decorating methods
  \<open>addLeafNodes\<close> and \<open>addTerminalLeaves\<close> run a loop whose rounds each make one leaf
  body (\<open>leafBody_at\<close>: radius \<open>CFG.leafRadius\<close>, the group of the parent's body)
  and then, in \<open>attachLeaf\<close>, wrap it in a \<open>TreeNode\<close>, attach it with
  \<open>addChild(leafNode, CFG.leafSpring, true)\<close>, add body and constraint to the world and
  push the body to \<open>nodeBodies\<close>.
  \<^verbatim>\<open>
  addLeafNodes(parentNode, childNode) {
      const numLeaves = 2 + Math.floor(Math.random() * 3);
      for (let i = 0; i < numLeaves; i++) {
          const parentPos = parentNode.body.position;
          const childPos = childNode.body.position;
          const midX = (parentPos.x + childPos.x) * 0.5;
          const midY = (parentPos.y + childPos.y) * 0.5;
          const offsetX = (Math.random() - 0.5) * 60;
          const offsetY = (Math.random() - 0.5) * 40;
          const leafBody = Bodies.circle(midX + offsetX, midY + offsetY, CFG.leafRadius, {...,
              collisionFilter: {group: parentNode.body.collisionFilter.group}});
          leafBody.label = `leaf_${parentNode.id}_${i}`;
          const leafNode = new TreeNode(leafBody.label, leafBody);
          const leafConstraint = parentNode.addChild(leafNode, CFG.leafSpring, true);
          World.add(this.world, [leafBody, leafConstraint]);
          this.nodeBodies.push(leafBody);
      }
  }
  addTerminalLeaves(terminalNode) {
      const numLeaves = 3 + Math.floor(Math.random() * 4);
      for (let i = 0; i < numLeaves; i++) {
          const nodePos = terminalNode.body.position;
          const angle = (i / numLeaves) * Math.PI * 2;
          const radius = 25 + Math.random() * 20;
          const leafX = nodePos.x + Math.cos(angle) * radius;
          const leafY = nodePos.y + Math.sin(angle) * radius;
          ... the rest as above, with the label `terminal_leaf_${terminalNode.id}_${i}`
      }
  }
  \<close>
\<close>

definition World_add :: "nat list \<Rightarrow> constraint list \<Rightarrow> scene \<Rightarrow> scene" where
  "World_add bs cs s = s\<lparr>world_bodies := world_bodies s @ bs, world_constraints := world_constraints s @ cs\<rparr>"

definition leafBody_at :: "jsnum \<Rightarrow> jsnum \<Rightarrow> int \<Rightarrow> string \<Rightarrow> body" where
  "leafBody_at x y g lbl =
     (Bodies_circle x y CFG_leafRadius (CFG_airFriction * 1.5) ''#90EE90'' ''#228B22'' 1 g)\<lparr>label := lbl\<rparr>"

definition attachLeaf :: "tree_node \<Rightarrow> body \<Rightarrow> scene \<Rightarrow> tree_node \<times> scene" where
  "attachLeaf this leafBody s =
     (let (lb, s1) = alloc leafBody s;
          leafNode = TreeNode (label leafBody) lb [] [];
          (leafConstraint, this1) = addChild this leafNode CFG_leafSpring True;
          s2 = World_add [lb] [leafConstraint] s1
      in (this1, s2\<lparr>nodeBodies := nodeBodies s2 @ [lb]\<rparr>))"

definition addLeafNodes_round :: "closure \<Rightarrow> tree_node \<Rightarrow> nat \<Rightarrow> tree_node \<times> scene \<Rightarrow> tree_node \<times> scene" where
  "addLeafNodes_round cl childNode i ps =
     (let parentNode = fst ps; s = snd ps;
          parentPos = position (heap s ! node_body parentNode);
          childPos = position (heap s ! node_body childNode);
          midX = js_mul (js_add (fst parentPos) (fst childPos)) (Some 0.5);
          midY = js_mul (js_add (snd parentPos) (snd childPos)) (Some 0.5);
          (r1, s1) = random_next cl s;
          offsetX = (r1 - 0.5) * 60;
          (r2, s2) = random_next cl s1;
          offsetY = (r2 - 0.5) * 40;
          leafBody = leafBody_at (js_add midX (Some offsetX)) (js_add midY (Some offsetY))
                       (collisionFilter_group (heap s ! node_body parentNode))
                       (''leaf_'' @ node_id parentNode @ ''_'' @ nat_str i)
      in attachLeaf parentNode leafBody s2)"

definition addLeafNodes :: "closure \<Rightarrow> tree_node \<Rightarrow> tree_node \<Rightarrow> scene \<Rightarrow> tree_node \<times> scene" where
  "addLeafNodes cl parentNode childNode s =
     (let (r, s1) = random_next cl s;
          numLeaves = 2 + \<lfloor>r * 3\<rfloor>
      in fold (addLeafNodes_round cl childNode) [0 ..< nat numLeaves] (parentNode, s1))"

definition addTerminalLeaves_round :: "closure \<Rightarrow> int \<Rightarrow> nat \<Rightarrow> tree_node \<times> scene \<Rightarrow> tree_node \<times> scene" where
  "addTerminalLeaves_round cl numLeaves i ts =
     (let terminalNode = fst ts; s = snd ts;
          nodePos = position (heap s ! node_body terminalNode);
          angle = (real i / real_of_int numLeaves) * pi * 2;
          (r1, s1) = random_next cl s;
          radius = 25 + r1 * 20;
          leafX = js_add (fst nodePos) (Some (cos angle * radius));
          leafY = js_add (snd nodePos) (Some (sin angle * radius));
          leafBody = leafBody_at leafX leafY
                       (collisionFilter_group (heap s ! node_body terminalNode))
                       (''terminal_leaf_'' @ node_id terminalNode @ ''_'' @ nat_str i)
      in attachLeaf terminalNode leafBody s1)"

definition addTerminalLeaves :: "closure \<Rightarrow> tree_node \<Rightarrow> scene \<Rightarrow> tree_node \<times> scene" where
  "addTerminalLeaves cl terminalNode s =
     (let (r, s1) = random_next cl s;
          numLeaves = 3 + \<lfloor>r * 4\<rfloor>
      in fold (addTerminalLeaves_round cl numLeaves) [0 ..< nat numLeaves] (terminalNode, s1))"

text \<open>
  \<^verbatim>\<open>
  const buildRec = (id) => {
      const node = new TreeNode(id, getBody(id));
      const children = adjacency.get(id) || [];
      for (const cid of children) {
          const child = buildRec(cid);
          const cons = node.addChild(child, CFG.spring);
          World.add(this.world, cons);
          if (depth.get(id) > 0) this.addLeafNodes(node, child);
      }
      if (children.length === 0 && depth.get(id) > 0) this.addTerminalLeaves(node);
      return node;
  };
  \<close>
  The recursion follows the adjacency and has no visited set, so on an adjacency with a
  cycle it never returns: the engine ends it with a \<open>RangeError\<close> when the call stack is
  exhausted. The first argument is the number of nested \<open>buildRec\<close> calls the stack still
  has room for. \<open>buildRec_children\<close> is the \<open>for\<close> loop, run in the frame of its caller.
\<close>

datatype error = RangeError

fun buildRec :: "nat \<Rightarrow> closure \<Rightarrow> string \<Rightarrow> scene \<Rightarrow> error + (tree_node \<times> scene)"
  and buildRec_children :: "nat \<Rightarrow> closure \<Rightarrow> string list \<Rightarrow> tree_node \<Rightarrow> scene \<Rightarrow> error + (tree_node \<times> scene)"
where
  "buildRec 0 cl ident s = Inl RangeError"
| "buildRec (Suc stack) cl ident s =
     (let (b, s1) = getBody cl ident s;
          node = TreeNode ident b [] [];
          cids = adj_get (adjacency cl) ident
      in case buildRec_children stack cl cids node s1 of
           Inl e \<Rightarrow> Inl e
         | Inr (node1, s2) \<Rightarrow>
             if cids = [] \<and> depth_positive cl ident
             then Inr (addTerminalLeaves cl node1 s2)
             else Inr (node1, s2))"
| "buildRec_children stack cl [] node s = Inr (node, s)"
| "buildRec_children stack cl (cid # cids) node s =
     (case buildRec stack cl cid s of
        Inl e \<Rightarrow> Inl e
      | Inr (child, s1) \<Rightarrow>
          (let (cons, node1) = addChild node child CFG_spring False;
               s2 = World_add [] [cons] s1;
               (node2, s3) = (if depth_positive cl (node_id node)
                              then addLeafNodes cl node1 child s2 else (node1, s2))
           in buildRec_children stack cl cids node2 s3))"

text \<open>
  \<^verbatim>\<open>
  buildTree({adjacency, rootId}) {
      const group = -Math.abs(Bodies.circle(0, 0, 1).collisionFilter.group || Body.nextGroup(true));
      ... depth (the breadth-first loop above) ...
      const counts = new Map();
      for (const [id, d] of depth) counts.set(d, (counts.get(d) || 0) + 1);
      const idxByDepth = new Map();
      ... makeBody, getBody, buildRec ...
      const root = buildRec(rootId);
      const bodies = [...bodyCache.values()];
      World.add(this.world, bodies);
      this.rootPin = Constraint.create({pointA: {x: this.center.x, y: this.render.canvas.height - 100},
          bodyB: root.body, length: 0, stiffness: 1.0, damping: 0.9, render: {visible: false}});
      World.add(this.world, this.rootPin);
      this.root = root;
      this.nodes = [];
      root.traverse((n) => this.nodes.push(n));
      this.nodeBodies = this.nodes.map((n) => n.body);
      this.nodeBodies.forEach(body => Body.setVelocity(body,
          {x: (Math.random() - 0.5) * 0.5, y: (Math.random() - 0.5) * 0.5}));
      return root;
  }
  \<close>
  \<open>buildFrom\<close> is \<open>buildTree\<close> from the point where the depth map is known: everything
  after the breadth-first loop reads the depth map through the closure only, so it is a
  function of the closure. \<open>buildTree\<close> runs it on the depth map of the loop, with the
  collision group \<open>tree_group\<close> of its first statement. \<open>Body.setVelocity\<close> is modelled
  by the velocity it sets. The value \<open>maxDepth\<close>, which is computed and never read, the
  console output and the logging timer are left out; so is the probe body, which is made
  only for its group and is not added to the world.
\<close>

definition count_depths :: "'a depth_map \<Rightarrow> (nat \<times> nat) list" where
  "count_depths dm =
     fold (\<lambda>(ident, d) cnt. map_set cnt d ((case map_of cnt d of Some c \<Rightarrow> c | None \<Rightarrow> 0) + 1)) dm []"

definition setRandomVelocity :: "closure \<Rightarrow> nat \<Rightarrow> scene \<Rightarrow> scene" where
  "setRandomVelocity cl b s =
     (let (r1, s1) = random_next cl s;
          (r2, s2) = random_next cl s1
      in s2\<lparr>heap := (heap s2)[b := (heap s2 ! b)\<lparr>velocity := (Some ((r1 - 0.5) * 0.5), Some ((r2 - 0.5) * 0.5))\<rparr>]\<rparr>)"

definition buildFrom :: "closure \<Rightarrow> string \<Rightarrow> nat \<Rightarrow> scene \<Rightarrow> error + (tree_node \<times> scene)" where
  "buildFrom cl rootId stack s0 =
     (case buildRec stack cl rootId (s0\<lparr>idxByDepth := [], bodyCache := []\<rparr>) of
        Inl e \<Rightarrow> Inl e
      | Inr (rt, s1) \<Rightarrow>
          (let bodies = map snd (bodyCache s1);
               s2 = World_add bodies [] s1;
               pin = \<lparr>bodyA = None,
                      pointA = Some (Some (fst (center cl)), Some (canvas_height cl - 100)),
                      bodyB = node_body rt, length_c = 0, stiffness = 1, damping = 0.9,
                      render = Hidden\<rparr>;
               s3 = World_add [] [pin] (s2\<lparr>rootPin := Some pin\<rparr>);
               ns = traverse rt;
               s4 = s3\<lparr>root := Some rt, nodes := ns, nodeBodies := map node_body ns\<rparr>
           in Inr (rt, fold (setRandomVelocity cl) (nodeBodies s4) s4)))"

definition tree_group :: "env \<Rightarrow> int" where
  "tree_group e = - \<bar>if probe_group e \<noteq> 0 then probe_group e else next_group e\<bar>"

definition closure_of :: "env \<Rightarrow> string adjacency \<Rightarrow> string depth_map \<Rightarrow> closure" where
  "closure_of e adj dm =
     \<lparr>canvas_width = canvas_width e, canvas_height = canvas_height e,
      Math_random = Math_random e, probe_group = probe_group e, next_group = next_group e,
      adjacency = adj, depth = dm, counts = count_depths dm, group = tree_group e\<rparr>"

definition buildTree :: "env \<Rightarrow> string adjacency \<Rightarrow> string \<Rightarrow> nat \<Rightarrow> scene \<Rightarrow> error + (tree_node \<times> scene)" where
  "buildTree e adj rootId stack s = buildFrom (closure_of e adj (bfs_depth adj rootId)) rootId stack s"

text \<open>
  The adjacency \<open>makeTree\<close> builds from its edge list,
  \<open>adjacency.set(p, (adjacency.get(p) || []).concat(c))\<close> for every edge, and small
  scenes and adjacencies to run the builder on.
\<close>

definition makeTree_edges :: "(string \<times> string) list" where
  "makeTree_edges =
     [(''root'', ''root2''), (''root2'', ''A''), (''A'', ''B''), (''A'', ''C''), (''B'', ''D''),
      (''B'', ''E''), (''C'', ''F''), (''C'', ''G''), (''E'', ''H''), (''E'', ''I''), (''G'', ''J'')]"

definition makeTree_adjacency :: "string adjacency" where
  "makeTree_adjacency = fold (\<lambda>(p, c) adj. map_set adj p (adj_get adj p @ [c])) makeTree_edges []"

definition empty_scene :: scene where
  "empty_scene = \<lparr>heap = [], world_bodies = [], world_constraints = [], nodeBodies = [],
     nodes = [], root = None, rootPin = None, randoms = 0, idxByDepth = [], bodyCache = []\<rparr>"

definition example_env :: env where
  "example_env = \<lparr>canvas_width = 800, canvas_height = 600, Math_random = (\<lambda>n. 0),
                    probe_group = 0, next_group = - 1\<rparr>"

definition diamond :: "string adjacency" where
  "diamond = [(''r'', [''a'', ''b'']), (''a'', [''c'']), (''b'', [''c''])]"

definition twig :: "string adjacency" where
  "twig = [(''r'', [''a''])]"

definition twig_depth :: "string depth_map" where
  "twig_depth = [(''r'', 0), (''a'', 1)]"

definition swapped_depth :: "string depth_map" where
  "swapped_depth = [(''r'', 1), (''a'', 0)]"

section \<open>What each step of the builder does to the scene\<close>

lemma map_set_absent: "map_of m k = None \<Longrightarrow> map_set m k v = m @ [(k, v)]"
  by (induction m) (auto split: if_splits)

lemma alloc_fields [simp]:
  "fst (alloc b s) = length (heap s)"
  "heap (snd (alloc b s)) = heap s @ [b]"
  "world_bodies (snd (alloc b s)) = world_bodies s"
  "world_constraints (snd (alloc b s)) = world_constraints s"
  "nodeBodies (snd (alloc b s)) = nodeBodies s"
  "randoms (snd (alloc b s)) = randoms s"
  "idxByDepth (snd (alloc b s)) = idxByDepth s"
  "bodyCache (snd (alloc b s)) = bodyCache s"
  "nodes (snd (alloc b s)) = nodes s"
  "root (snd (alloc b s)) = root s"
  "rootPin (snd (alloc b s)) = rootPin s"
  by (simp_all add: alloc_def)

lemma random_next_fields [simp]:
  "fst (random_next cl s) = Math_random cl (randoms s)"
  "heap (snd (random_next cl s)) = heap s"
  "world_bodies (snd (random_next cl s)) = world_bodies s"
  "world_constraints (snd (random_next cl s)) = world_constraints s"
  "nodeBodies (snd (random_next cl s)) = nodeBodies s"
  "randoms (snd (random_next cl s)) = Suc (randoms s)"
  "idxByDepth (snd (random_next cl s)) = idxByDepth s"
  "bodyCache (snd (random_next cl s)) = bodyCache s"
  "nodes (snd (random_next cl s)) = nodes s"
  "root (snd (random_next cl s)) = root s"
  "rootPin (snd (random_next cl s)) = rootPin s"
  by (simp_all add: random_next_def)

lemma World_add_fields [simp]:
  "heap (World_add bs cs s) = heap s"
  "world_bodies (World_add bs cs s) = world_bodies s @ bs"
  "world_constraints (World_add bs cs s) = world_constraints s @ cs"
  "nodeBodies (World_add bs cs s) = nodeBodies s"
  "randoms (World_add bs cs s) = randoms s"
  "idxByDepth (World_add bs cs s) = idxByDepth s"
  "bodyCache (World_add bs cs s) = bodyCache s"
  "nodes (World_add bs cs s) = nodes s"
  "root (World_add bs cs s) = root s"
  "rootPin (World_add bs cs s) = rootPin s"
  by (simp_all add: World_add_def)

lemma makeBody_fields [simp]:
  "fst (makeBody cl ident s) = length (heap s)"
  "heap (snd (makeBody cl ident s)) = heap s @ [makeBody_body cl ident s]"
  "world_bodies (snd (makeBody cl ident s)) = world_bodies s"
  "world_constraints (snd (makeBody cl ident s)) = world_constraints s"
  "nodeBodies (snd (makeBody cl ident s)) = nodeBodies s"
  "randoms (snd (makeBody cl ident s)) = randoms s"
  "bodyCache (snd (makeBody cl ident s)) = bodyCache s"
  "nodes (snd (makeBody cl ident s)) = nodes s"
  "root (snd (makeBody cl ident s)) = root s"
  "rootPin (snd (makeBody cl ident s)) = rootPin s"
  by (simp_all add: makeBody_def Let_def)

lemma makeBody_body_fields [simp]:
  "label (makeBody_body cl ident s) = ident"
  "circleRadius (makeBody_body cl ident s) = CFG_nodeRadius"
  "collisionFilter_group (makeBody_body cl ident s) = group cl"
  by (simp_all add: makeBody_body_def Let_def Bodies_circle_def)

lemma getBody_cached:
  "map_of (bodyCache s) ident = Some b \<Longrightarrow> getBody cl ident s = (b, s)"
  by (simp add: getBody_def)

lemma getBody_fresh:
  assumes "map_of (bodyCache s) ident = None"
  shows "fst (getBody cl ident s) = length (heap s)"
    "heap (snd (getBody cl ident s)) = heap s @ [makeBody_body cl ident s]"
    "bodyCache (snd (getBody cl ident s)) = bodyCache s @ [(ident, length (heap s))]"
    "world_bodies (snd (getBody cl ident s)) = world_bodies s"
    "world_constraints (snd (getBody cl ident s)) = world_constraints s"
    "nodeBodies (snd (getBody cl ident s)) = nodeBodies s"
    "randoms (snd (getBody cl ident s)) = randoms s"
    "nodes (snd (getBody cl ident s)) = nodes s"
    "root (snd (getBody cl ident s)) = root s"
    "rootPin (snd (getBody cl ident s)) = rootPin s"
  using assms by (simp_all add: getBody_def case_prod_beta map_set_absent)

text \<open>The constraint that \<open>attachLeaf\<close> creates for the leaf body \<open>lb\<close> of the node \<open>this\<close>.\<close>

definition leaf_constraint :: "tree_node \<Rightarrow> nat \<Rightarrow> constraint" where
  "leaf_constraint this lb = fst (addChild this (TreeNode [] lb [] []) CFG_leafSpring True)"

lemma attachLeaf_fields [simp]:
  "fst (attachLeaf this leafBody s) =
     TreeNode (node_id this) (node_body this)
       (children this @ [TreeNode (label leafBody) (length (heap s)) [] []])
       (node_edges this @ [leaf_constraint this (length (heap s))])"
  "heap (snd (attachLeaf this leafBody s)) = heap s @ [leafBody]"
  "world_bodies (snd (attachLeaf this leafBody s)) = world_bodies s @ [length (heap s)]"
  "world_constraints (snd (attachLeaf this leafBody s)) =
     world_constraints s @ [leaf_constraint this (length (heap s))]"
  "nodeBodies (snd (attachLeaf this leafBody s)) = nodeBodies s @ [length (heap s)]"
  "randoms (snd (attachLeaf this leafBody s)) = randoms s"
  "idxByDepth (snd (attachLeaf this leafBody s)) = idxByDepth s"
  "bodyCache (snd (attachLeaf this leafBody s)) = bodyCache s"
  "nodes (snd (attachLeaf this leafBody s)) = nodes s"
  "root (snd (attachLeaf this leafBody s)) = root s"
  "rootPin (snd (attachLeaf this leafBody s)) = rootPin s"
  by (simp_all add: attachLeaf_def case_prod_beta Let_def addChild_def leaf_constraint_def)

lemma leaf_constraint_fields [simp]:
  "bodyA (leaf_constraint this lb) = Some (node_body this)"
  "bodyB (leaf_constraint this lb) = lb"
  "length_c (leaf_constraint this lb) = length_opt CFG_leafSpring"
  "stiffness (leaf_constraint this lb) = stiffness_opt CFG_leafSpring"
  "damping (leaf_constraint this lb) = damping_opt CFG_leafSpring"
  "render (leaf_constraint this lb) = Stroke ''#4a9d4a'' 1"
  by (simp_all add: leaf_constraint_def addChild_def Let_def)

lemma leafBody_at_fields [simp]:
  "label (leafBody_at x y g lbl) = lbl"
  "circleRadius (leafBody_at x y g lbl) = CFG_leafRadius"
  "collisionFilter_group (leafBody_at x y g lbl) = g"
  by (simp_all add: leafBody_at_def Bodies_circle_def)

section \<open>An invariant of the builder\<close>

text \<open>
  A decorative body is one made by \<open>addLeafNodes\<close> or \<open>addTerminalLeaves\<close>: it has the
  radius \<open>CFG.leafRadius\<close>, which no body of \<open>makeBody\<close> has. A constraint has the leaf
  style when it carries the values of \<open>CFG.leafSpring\<close> and the rendering of
  \<open>addChild(..., true)\<close>, the branch style when it carries those of \<open>CFG.spring\<close>.
\<close>

definition decorative :: "body \<Rightarrow> bool" where
  "decorative b \<longleftrightarrow> circleRadius b = CFG_leafRadius"

definition leaf_style :: "constraint \<Rightarrow> bool" where
  "leaf_style c \<longleftrightarrow>
     length_c c = length_opt CFG_leafSpring \<and> stiffness c = stiffness_opt CFG_leafSpring
     \<and> damping c = damping_opt CFG_leafSpring \<and> render c = Stroke ''#4a9d4a'' 1"

definition branch_style :: "constraint \<Rightarrow> bool" where
  "branch_style c \<longleftrightarrow>
     length_c c = length_opt CFG_spring \<and> stiffness c = stiffness_opt CFG_spring
     \<and> damping c = damping_opt CFG_spring \<and> render c = Stroke ''#6af08e'' 2"

text \<open>The ids, bodies and constraints the builder has added since the scene \<open>s0\<close>.\<close>

definition new_bodies :: "scene \<Rightarrow> scene \<Rightarrow> nat list" where
  "new_bodies s0 s = drop (length (world_bodies s0)) (world_bodies s)"

definition new_constraints :: "scene \<Rightarrow> scene \<Rightarrow> constraint list" where
  "new_constraints s0 s = drop (length (world_constraints s0)) (world_constraints s)"

definition created :: "scene \<Rightarrow> scene \<Rightarrow> nat \<Rightarrow> bool" where
  "created s0 s r \<longleftrightarrow> length (heap s0) \<le> r \<and> r < length (heap s)"

definition build_inv :: "closure \<Rightarrow> scene \<Rightarrow> scene \<Rightarrow> bool" where
  "build_inv cl s0 s \<longleftrightarrow>
     length (heap s0) \<le> length (heap s)
   \<and> (\<forall>r. created s0 s r \<longrightarrow> collisionFilter_group (heap s ! r) = group cl)
   \<and> distinct (map fst (bodyCache s)) \<and> distinct (map snd (bodyCache s))
   \<and> (\<forall>i r. (i, r) \<in> set (bodyCache s) \<longrightarrow>
         created s0 s r \<and> label (heap s ! r) = i \<and> circleRadius (heap s ! r) = CFG_nodeRadius)
   \<and> (\<forall>r. created s0 s r \<longrightarrow> r \<in> snd ` set (bodyCache s) \<or> decorative (heap s ! r))
   \<and> take (length (world_bodies s0)) (world_bodies s) = world_bodies s0
   \<and> (\<forall>r. r \<in> set (new_bodies s0 s) \<longrightarrow> created s0 s r \<and> decorative (heap s ! r))
   \<and> take (length (world_constraints s0)) (world_constraints s) = world_constraints s0
   \<and> (\<forall>c. c \<in> set (new_constraints s0 s) \<longrightarrow>
         created s0 s (bodyB c) \<and>
         (if decorative (heap s ! bodyB c) then leaf_style c else branch_style c))"

lemma radius_distinct: "CFG_nodeRadius \<noteq> CFG_leafRadius"
  by (simp add: CFG_nodeRadius_def CFG_leafRadius_def)

text \<open>A step that only appends to the heap, the cache and the world keeps the invariant,
  provided what it appends is well formed.\<close>

lemma build_inv_extend:
  assumes inv: "build_inv cl s0 s"
    and heap: "heap s' = heap s @ hs" "\<And>b. b \<in> set hs \<Longrightarrow> collisionFilter_group b = group cl"
    and cache: "bodyCache s' = bodyCache s @ cs"
      "distinct (map fst (bodyCache s @ cs))"
      "\<And>i r. (i, r) \<in> set cs \<Longrightarrow> length (heap s) \<le> r \<and> r < length (heap s')
          \<and> label (heap s' ! r) = i \<and> circleRadius (heap s' ! r) = CFG_nodeRadius"
      "distinct (map snd cs)"
    and fresh: "\<And>r. length (heap s) \<le> r \<Longrightarrow> r < length (heap s') \<Longrightarrow>
          r \<in> snd ` set cs \<or> decorative (heap s' ! r)"
    and wb: "world_bodies s' = world_bodies s @ bs"
      "\<And>r. r \<in> set bs \<Longrightarrow> created s0 s' r \<and> decorative (heap s' ! r)"
    and wc: "world_constraints s' = world_constraints s @ ks"
      "\<And>c. c \<in> set ks \<Longrightarrow> created s0 s' (bodyB c) \<and>
         (if decorative (heap s' ! bodyB c) then leaf_style c else branch_style c)"
  shows "build_inv cl s0 s'"
proof -
  from inv have len: "length (heap s0) \<le> length (heap s)"
    and grp: "\<And>r. created s0 s r \<Longrightarrow> collisionFilter_group (heap s ! r) = group cl"
    and dk: "distinct (map fst (bodyCache s))" and dr: "distinct (map snd (bodyCache s))"
    and cok: "\<And>i r. (i, r) \<in> set (bodyCache s) \<Longrightarrow>
         created s0 s r \<and> label (heap s ! r) = i \<and> circleRadius (heap s ! r) = CFG_nodeRadius"
    and lf: "\<And>r. created s0 s r \<Longrightarrow> r \<in> snd ` set (bodyCache s) \<or> decorative (heap s ! r)"
    and wb0: "take (length (world_bodies s0)) (world_bodies s) = world_bodies s0"
    and wbn: "\<And>r. r \<in> set (new_bodies s0 s) \<Longrightarrow> created s0 s r \<and> decorative (heap s ! r)"
    and wc0: "take (length (world_constraints s0)) (world_constraints s) = world_constraints s0"
    and wcn: "\<And>c. c \<in> set (new_constraints s0 s) \<Longrightarrow> created s0 s (bodyB c) \<and>
         (if decorative (heap s ! bodyB c) then leaf_style c else branch_style c)"
    unfolding build_inv_def by blast+
  have old: "\<And>r. r < length (heap s) \<Longrightarrow> heap s' ! r = heap s ! r"
    by (simp add: heap(1) nth_append)
  have cr: "\<And>r. created s0 s r \<Longrightarrow> created s0 s' r"
    by (simp add: created_def heap(1))
  have lwb: "length (world_bodies s0) \<le> length (world_bodies s)"
    using wb0 by (metis length_take min.cobounded1 min_def nat_le_linear take_all)
  have lwc: "length (world_constraints s0) \<le> length (world_constraints s)"
    using wc0 by (metis length_take min.cobounded1 min_def nat_le_linear take_all)
  have c1: "length (heap s0) \<le> length (heap s')" using len by (simp add: heap(1))
  have c2: "\<And>r. created s0 s' r \<Longrightarrow> collisionFilter_group (heap s' ! r) = group cl"
  proof -
    fix r assume r: "created s0 s' r"
    show "collisionFilter_group (heap s' ! r) = group cl"
    proof (cases "r < length (heap s)")
      case True
      then show ?thesis using r grp[of r] old by (simp add: created_def)
    next
      case False
      then have "r - length (heap s) < length hs" using r
        by (auto simp: created_def heap(1))
      then have "hs ! (r - length (heap s)) \<in> set hs" by (rule nth_mem)
      then have "heap s' ! r \<in> set hs" using False
        by (simp add: heap(1) nth_append)
      then show ?thesis by (rule heap(2))
    qed
  qed
  have c3: "distinct (map fst (bodyCache s'))" using cache(1,2) by simp
  have c4: "distinct (map snd (bodyCache s'))"
  proof -
    have "snd ` set (bodyCache s) \<inter> snd ` set cs = {}"
    proof (rule ccontr)
      assume "snd ` set (bodyCache s) \<inter> snd ` set cs \<noteq> {}"
      then obtain r i j where "(i, r) \<in> set (bodyCache s)" "(j, r) \<in> set cs" by fastforce
      then have "r < length (heap s)" "length (heap s) \<le> r"
        using cok[of i r] cache(3)[of j r] by (simp_all add: created_def)
      then show False by simp
    qed
    then show ?thesis using dr cache(4) by (simp add: cache(1))
  qed
  have c5: "\<And>i r. (i, r) \<in> set (bodyCache s') \<Longrightarrow>
         created s0 s' r \<and> label (heap s' ! r) = i \<and> circleRadius (heap s' ! r) = CFG_nodeRadius"
  proof -
    fix i r assume "(i, r) \<in> set (bodyCache s')"
    then consider "(i, r) \<in> set (bodyCache s)" | "(i, r) \<in> set cs" by (auto simp: cache(1))
    then show "created s0 s' r \<and> label (heap s' ! r) = i \<and> circleRadius (heap s' ! r) = CFG_nodeRadius"
    proof cases
      case 1
      from cok[OF 1] show ?thesis using cr old by (simp add: created_def)
    next
      case 2
      from cache(3)[OF 2] len show ?thesis by (simp add: created_def)
    qed
  qed
  have cL: "\<And>r. created s0 s' r \<Longrightarrow> r \<in> snd ` set (bodyCache s') \<or> decorative (heap s' ! r)"
  proof -
    fix r assume r: "created s0 s' r"
    show "r \<in> snd ` set (bodyCache s') \<or> decorative (heap s' ! r)"
    proof (cases "r < length (heap s)")
      case True
      then have "created s0 s r" using r by (simp add: created_def)
      from lf[OF this] show ?thesis using old[OF True] by (auto simp: cache(1))
    next
      case False
      then have "r \<in> snd ` set cs \<or> decorative (heap s' ! r)"
        using r by (intro fresh) (simp_all add: created_def)
      then show ?thesis by (auto simp: cache(1))
    qed
  qed
  have c6: "take (length (world_bodies s0)) (world_bodies s') = world_bodies s0"
    using wb0 lwb by (simp add: wb(1))
  have nb: "new_bodies s0 s' = new_bodies s0 s @ bs"
    using lwb by (simp add: new_bodies_def wb(1))
  have c7: "\<And>r. r \<in> set (new_bodies s0 s') \<Longrightarrow> created s0 s' r \<and> decorative (heap s' ! r)"
  proof -
    fix r assume "r \<in> set (new_bodies s0 s')"
    then consider "r \<in> set (new_bodies s0 s)" | "r \<in> set bs" by (auto simp: nb)
    then show "created s0 s' r \<and> decorative (heap s' ! r)"
    proof cases
      case 1
      from wbn[OF 1] show ?thesis using cr old by (simp add: created_def)
    next
      case 2
      then show ?thesis by (rule wb(2))
    qed
  qed
  have c8: "take (length (world_constraints s0)) (world_constraints s') = world_constraints s0"
    using wc0 lwc by (simp add: wc(1))
  have nc: "new_constraints s0 s' = new_constraints s0 s @ ks"
    using lwc by (simp add: new_constraints_def wc(1))
  have c9: "\<And>c. c \<in> set (new_constraints s0 s') \<Longrightarrow> created s0 s' (bodyB c) \<and>
         (if decorative (heap s' ! bodyB c) then leaf_style c else branch_style c)"
  proof -
    fix c assume "c \<in> set (new_constraints s0 s')"
    then consider "c \<in> set (new_constraints s0 s)" | "c \<in> set ks" by (auto simp: nc)
    then show "created s0 s' (bodyB c) \<and>
         (if decorative (heap s' ! bodyB c) then leaf_style c else branch_style c)"
    proof cases
      case 1
      from wcn[OF 1] show ?thesis using cr old by (simp add: created_def)
    next
      case 2
      then show ?thesis by (rule wc(2))
    qed
  qed
  show ?thesis unfolding build_inv_def using c1 c2 c3 c4 c5 cL c6 c7 c8 c9 by blast
qed

subsection \<open>The recursion of \<open>buildRec\<close>, step by step\<close>

text \<open>
  \<open>attach_child\<close> is the body of the \<open>for\<close> loop of \<open>buildRec\<close> after the recursive
  call, \<open>finish_node\<close> the statement after the loop. The recursion is unfolded with
  these, and the induction rule follows its calls.
\<close>

definition attach_child :: "closure \<Rightarrow> tree_node \<Rightarrow> tree_node \<Rightarrow> scene \<Rightarrow> tree_node \<times> scene" where
  "attach_child cl node child s =
     (let (cons, node1) = addChild node child CFG_spring False;
          s2 = World_add [] [cons] s
      in if depth_positive cl (node_id node) then addLeafNodes cl node1 child s2 else (node1, s2))"

definition finish_node :: "closure \<Rightarrow> string \<Rightarrow> tree_node \<times> scene \<Rightarrow> tree_node \<times> scene" where
  "finish_node cl ident ns =
     (if adj_get (adjacency cl) ident = [] \<and> depth_positive cl ident
      then addTerminalLeaves cl (fst ns) (snd ns) else ns)"

lemma buildRec_Suc:
  "buildRec (Suc stack) cl ident s =
     (case buildRec_children stack cl (adj_get (adjacency cl) ident)
             (TreeNode ident (fst (getBody cl ident s)) [] []) (snd (getBody cl ident s)) of
        Inl e \<Rightarrow> Inl e
      | Inr ns \<Rightarrow> Inr (finish_node cl ident ns))"
  by (auto simp: finish_node_def case_prod_beta Let_def split: sum.splits)

lemma buildRec_children_Cons:
  "buildRec_children stack cl (cid # cids) node s =
     (case buildRec stack cl cid s of
        Inl e \<Rightarrow> Inl e
      | Inr cs \<Rightarrow> buildRec_children stack cl cids
                  (fst (attach_child cl node (fst cs) (snd cs)))
                  (snd (attach_child cl node (fst cs) (snd cs))))"
  by (simp add: attach_child_def case_prod_beta Let_def split: sum.splits)

lemma buildRec_induct [case_names empty_stack call no_children child]:
  assumes "\<And>cl ident s. P 0 cl ident s"
    and "\<And>stack cl ident s.
          Q stack cl (adj_get (adjacency cl) ident)
            (TreeNode ident (fst (getBody cl ident s)) [] []) (snd (getBody cl ident s))
          \<Longrightarrow> P (Suc stack) cl ident s"
    and "\<And>stack cl node s. Q stack cl [] node s"
    and "\<And>stack cl cid cids node s.
          P stack cl cid s \<Longrightarrow>
          (\<And>child s1. buildRec stack cl cid s = Inr (child, s1) \<Longrightarrow>
             Q stack cl cids (fst (attach_child cl node child s1)) (snd (attach_child cl node child s1)))
          \<Longrightarrow> Q stack cl (cid # cids) node s"
  shows "P stack cl ident s" and "Q stack cl cids node s"
proof (induction stack cl ident s and stack cl cids node s rule: buildRec_buildRec_children.induct)
  case (1 cl ident s)
  show ?case by (rule assms(1))
next
  case (2 stack cl ident s)
  show ?case
    by (rule assms(2)) (rule 2[OF refl prod.collapse refl refl])
next
  case (3 stack cl node s)
  show ?case by (rule assms(3))
next
  case (4 stack cl cid cids node s)
  show ?case
  proof (rule assms(4)[OF 4(1)])
    fix child s1 assume b: "buildRec stack cl cid s = Inr (child, s1)"
    have "Q stack cl cids
            (fst (if depth_positive cl (node_id node)
                  then addLeafNodes cl (snd (addChild node child CFG_spring False)) child
                         (World_add [] [fst (addChild node child CFG_spring False)] s1)
                  else (snd (addChild node child CFG_spring False),
                        World_add [] [fst (addChild node child CFG_spring False)] s1)))
            (snd (if depth_positive cl (node_id node)
                  then addLeafNodes cl (snd (addChild node child CFG_spring False)) child
                         (World_add [] [fst (addChild node child CFG_spring False)] s1)
                  else (snd (addChild node child CFG_spring False),
                        World_add [] [fst (addChild node child CFG_spring False)] s1)))"
      by (rule 4(2)[OF b refl refl prod.collapse refl refl prod.collapse])
    then show "Q stack cl cids (fst (attach_child cl node child s1)) (snd (attach_child cl node child s1))"
      by (simp add: attach_child_def case_prod_beta Let_def)
  qed
qed

declare buildRec.simps(2) [simp del] buildRec_children.simps(2) [simp del]

section \<open>The builder keeps the invariant\<close>

lemma build_inv_cached:
  assumes "build_inv cl s0 s" "(i, r) \<in> set (bodyCache s)"
  shows "created s0 s r" "label (heap s ! r) = i" "circleRadius (heap s ! r) = CFG_nodeRadius"
    "collisionFilter_group (heap s ! r) = group cl" "\<not> decorative (heap s ! r)"
  using assms radius_distinct unfolding build_inv_def decorative_def by auto

lemma getBody_inv:
  assumes inv: "build_inv cl s0 s"
  shows "build_inv cl s0 (snd (getBody cl ident s))
       \<and> set (bodyCache s) \<subseteq> set (bodyCache (snd (getBody cl ident s)))
       \<and> (ident, fst (getBody cl ident s)) \<in> set (bodyCache (snd (getBody cl ident s)))"
proof (cases "map_of (bodyCache s) ident")
  case (Some b)
  then have "(ident, b) \<in> set (bodyCache s)" by (rule map_of_SomeD)
  then show ?thesis using inv by (simp add: getBody_cached[OF Some])
next
  case None
  note f = getBody_fresh[OF None, of cl]
  have nk: "ident \<notin> fst ` set (bodyCache s)" using None by (simp add: map_of_eq_None_iff)
  have dk: "distinct (map fst (bodyCache s))" using inv by (simp add: build_inv_def)
  have len: "length (heap s0) \<le> length (heap s)" using inv by (simp add: build_inv_def)
  have "build_inv cl s0 (snd (getBody cl ident s))"
  proof (rule build_inv_extend[OF inv f(2) _ f(3)])
    show "distinct (map fst (bodyCache s @ [(ident, length (heap s))]))" using dk nk by simp
    show "r \<in> snd ` set [(ident, length (heap s))] \<or> decorative (heap (snd (getBody cl ident s)) ! r)"
      if "length (heap s) \<le> r" "r < length (heap (snd (getBody cl ident s)))" for r
      using that by (simp add: f)
    show "world_bodies (snd (getBody cl ident s)) = world_bodies s @ []" by (simp add: f)
    show "world_constraints (snd (getBody cl ident s)) = world_constraints s @ []" by (simp add: f)
  qed (auto simp: f)
  then show ?thesis by (auto simp: f)
qed

lemma attachLeaf_inv:
  assumes inv: "build_inv cl s0 s"
    and g: "collisionFilter_group leafBody = group cl" and d: "decorative leafBody"
  shows "build_inv cl s0 (snd (attachLeaf this leafBody s))"
proof -
  have len: "length (heap s0) \<le> length (heap s)" using inv by (simp add: build_inv_def)
  show ?thesis
  proof (rule build_inv_extend[OF inv, where hs = "[leafBody]" and cs = "[]"
        and bs = "[length (heap s)]" and ks = "[leaf_constraint this (length (heap s))]"])
    show "distinct (map fst (bodyCache s @ []))" using inv by (simp add: build_inv_def)
    show "r \<in> snd ` set [] \<or> decorative (heap (snd (attachLeaf this leafBody s)) ! r)"
      if "length (heap s) \<le> r" "r < length (heap (snd (attachLeaf this leafBody s)))" for r
    proof -
      from that have "r = length (heap s)" by simp
      then show ?thesis using d by simp
    qed
  qed (use g d len in \<open>auto simp: created_def leaf_style_def\<close>)
qed

lemma random_next_inv: "build_inv cl s0 s \<Longrightarrow> build_inv cl s0 (snd (random_next cl s))"
  by (simp add: build_inv_def created_def new_bodies_def new_constraints_def)

lemma addLeafNodes_round_inv:
  assumes inv: "build_inv cl s0 s" and c: "(node_id parentNode, node_body parentNode) \<in> set (bodyCache s)"
  shows "build_inv cl s0 (snd (addLeafNodes_round cl childNode i (parentNode, s)))
       \<and> bodyCache (snd (addLeafNodes_round cl childNode i (parentNode, s))) = bodyCache s
       \<and> node_id (fst (addLeafNodes_round cl childNode i (parentNode, s))) = node_id parentNode
       \<and> node_body (fst (addLeafNodes_round cl childNode i (parentNode, s))) = node_body parentNode"
proof -
  have g: "collisionFilter_group (heap s ! node_body parentNode) = group cl"
    by (rule build_inv_cached(4)[OF inv c])
  have i2: "build_inv cl s0 (snd (random_next cl (snd (random_next cl s))))"
    by (rule random_next_inv[OF random_next_inv[OF inv]])
  show ?thesis
    unfolding addLeafNodes_round_def Let_def case_prod_beta fst_conv snd_conv
    using attachLeaf_inv[OF i2, of _ parentNode] g by (simp add: decorative_def)
qed

lemma addTerminalLeaves_round_inv:
  assumes inv: "build_inv cl s0 s" and c: "(node_id terminalNode, node_body terminalNode) \<in> set (bodyCache s)"
  shows "build_inv cl s0 (snd (addTerminalLeaves_round cl n i (terminalNode, s)))
       \<and> bodyCache (snd (addTerminalLeaves_round cl n i (terminalNode, s))) = bodyCache s
       \<and> node_id (fst (addTerminalLeaves_round cl n i (terminalNode, s))) = node_id terminalNode
       \<and> node_body (fst (addTerminalLeaves_round cl n i (terminalNode, s))) = node_body terminalNode"
proof -
  have g: "collisionFilter_group (heap s ! node_body terminalNode) = group cl"
    by (rule build_inv_cached(4)[OF inv c])
  have i2: "build_inv cl s0 (snd (random_next cl s))"
    by (rule random_next_inv[OF inv])
  show ?thesis
    unfolding addTerminalLeaves_round_def Let_def case_prod_beta fst_conv snd_conv
    using attachLeaf_inv[OF i2, of _ terminalNode] g by (simp add: decorative_def)
qed

text \<open>A loop of rounds that each keep the invariant, the cache and the node's identity.\<close>

lemma rounds_inv:
  assumes step: "\<And>i node s. build_inv cl s0 s \<Longrightarrow> (node_id node, node_body node) \<in> set (bodyCache s) \<Longrightarrow>
        build_inv cl s0 (snd (f i (node, s))) \<and> bodyCache (snd (f i (node, s))) = bodyCache s
        \<and> node_id (fst (f i (node, s))) = node_id node \<and> node_body (fst (f i (node, s))) = node_body node"
    and inv: "build_inv cl s0 s" and c: "(node_id node, node_body node) \<in> set (bodyCache s)"
  shows "build_inv cl s0 (snd (fold f is (node, s))) \<and> bodyCache (snd (fold f is (node, s))) = bodyCache s
        \<and> node_id (fst (fold f is (node, s))) = node_id node
        \<and> node_body (fst (fold f is (node, s))) = node_body node"
  using inv c
proof (induction "is" arbitrary: node s)
  case Nil
  then show ?case by simp
next
  case (Cons i "is")
  from step[OF Cons.prems, of i] have
    s1: "build_inv cl s0 (snd (f i (node, s)))" and s2: "bodyCache (snd (f i (node, s))) = bodyCache s"
    and s3: "node_id (fst (f i (node, s))) = node_id node"
    and s4: "node_body (fst (f i (node, s))) = node_body node" by auto
  have c': "(node_id (fst (f i (node, s))), node_body (fst (f i (node, s)))) \<in> set (bodyCache (snd (f i (node, s))))"
    using Cons.prems(2) by (simp add: s2 s3 s4)
  from Cons.IH[OF s1 c'] show ?case by (simp add: s2 s3 s4)
qed

lemma addLeafNodes_inv:
  assumes inv: "build_inv cl s0 s" and c: "(node_id parentNode, node_body parentNode) \<in> set (bodyCache s)"
  shows "build_inv cl s0 (snd (addLeafNodes cl parentNode childNode s))
       \<and> bodyCache (snd (addLeafNodes cl parentNode childNode s)) = bodyCache s
       \<and> node_id (fst (addLeafNodes cl parentNode childNode s)) = node_id parentNode
       \<and> node_body (fst (addLeafNodes cl parentNode childNode s)) = node_body parentNode"
proof -
  have c': "(node_id parentNode, node_body parentNode) \<in> set (bodyCache (snd (random_next cl s)))"
    using c by simp
  from rounds_inv[of cl s0 "addLeafNodes_round cl childNode", OF addLeafNodes_round_inv random_next_inv[OF inv] c']
  show ?thesis by (simp add: addLeafNodes_def case_prod_beta Let_def)
qed

lemma addTerminalLeaves_inv:
  assumes inv: "build_inv cl s0 s" and c: "(node_id terminalNode, node_body terminalNode) \<in> set (bodyCache s)"
  shows "build_inv cl s0 (snd (addTerminalLeaves cl terminalNode s))
       \<and> bodyCache (snd (addTerminalLeaves cl terminalNode s)) = bodyCache s
       \<and> node_id (fst (addTerminalLeaves cl terminalNode s)) = node_id terminalNode
       \<and> node_body (fst (addTerminalLeaves cl terminalNode s)) = node_body terminalNode"
proof -
  have c': "(node_id terminalNode, node_body terminalNode) \<in> set (bodyCache (snd (random_next cl s)))"
    using c by simp
  from rounds_inv[of cl s0 "addTerminalLeaves_round cl _", OF addTerminalLeaves_round_inv random_next_inv[OF inv] c']
  show ?thesis by (simp add: addTerminalLeaves_def case_prod_beta Let_def)
qed

text \<open>The constraint that \<open>node.addChild(child, CFG.spring)\<close> creates.\<close>

definition branch_constraint :: "tree_node \<Rightarrow> tree_node \<Rightarrow> constraint" where
  "branch_constraint node child = fst (addChild node child CFG_spring False)"

lemma branch_constraint_fields [simp]:
  "bodyA (branch_constraint node child) = Some (node_body node)"
  "bodyB (branch_constraint node child) = node_body child"
  "branch_style (branch_constraint node child)"
  by (simp_all add: branch_constraint_def addChild_def Let_def branch_style_def)

lemma addChild_node [simp]:
  "node_id (snd (addChild node child opt isLeaf)) = node_id node"
  "node_body (snd (addChild node child opt isLeaf)) = node_body node"
  "children (snd (addChild node child opt isLeaf)) = children node @ [child]"
  by (simp_all add: addChild_def Let_def)

lemma attach_child_inv:
  assumes inv: "build_inv cl s0 s"
    and c: "(node_id node, node_body node) \<in> set (bodyCache s)"
    and cc: "(node_id child, node_body child) \<in> set (bodyCache s)"
  shows "build_inv cl s0 (snd (attach_child cl node child s))
       \<and> bodyCache (snd (attach_child cl node child s)) = bodyCache s
       \<and> node_id (fst (attach_child cl node child s)) = node_id node
       \<and> node_body (fst (attach_child cl node child s)) = node_body node"
proof -
  let ?s2 = "World_add [] [branch_constraint node child] s"
  let ?n1 = "snd (addChild node child CFG_spring False)"
  have i2: "build_inv cl s0 ?s2"
  proof (rule build_inv_extend[OF inv, where hs = "[]" and cs = "[]" and bs = "[]"
        and ks = "[branch_constraint node child]"])
    show "distinct (map fst (bodyCache s @ []))" using inv by (simp add: build_inv_def)
    show "\<And>r. length (heap s) \<le> r \<Longrightarrow> r < length (heap ?s2) \<Longrightarrow>
        r \<in> snd ` set [] \<or> decorative (heap ?s2 ! r)" by simp
    show "\<And>c. c \<in> set [branch_constraint node child] \<Longrightarrow>
         created s0 ?s2 (bodyB c) \<and> (if decorative (heap ?s2 ! bodyB c) then leaf_style c else branch_style c)"
      using build_inv_cached(1,5)[OF inv cc] by (simp add: created_def)
  qed simp_all
  have c2: "(node_id ?n1, node_body ?n1) \<in> set (bodyCache ?s2)" using c by simp
  show ?thesis
    using addLeafNodes_inv[OF i2 c2, of child] i2
    by (simp add: attach_child_def case_prod_beta Let_def branch_constraint_def)
qed

lemma finish_node_inv:
  assumes inv: "build_inv cl s0 s" and c: "(node_id node, node_body node) \<in> set (bodyCache s)"
  shows "build_inv cl s0 (snd (finish_node cl ident (node, s)))
       \<and> bodyCache (snd (finish_node cl ident (node, s))) = bodyCache s
       \<and> node_id (fst (finish_node cl ident (node, s))) = node_id node
       \<and> node_body (fst (finish_node cl ident (node, s))) = node_body node"
  using addTerminalLeaves_inv[OF inv c] inv by (simp add: finish_node_def)

lemma buildRec_inv_both:
  "(\<forall>s0 t s'. build_inv cl s0 s \<longrightarrow> buildRec stack cl ident s = Inr (t, s') \<longrightarrow>
      build_inv cl s0 s' \<and> set (bodyCache s) \<subseteq> set (bodyCache s')
      \<and> (ident, node_body t) \<in> set (bodyCache s') \<and> node_id t = ident)"
  "(\<forall>s0 t s'. build_inv cl s0 s \<longrightarrow> (node_id node, node_body node) \<in> set (bodyCache s) \<longrightarrow>
      buildRec_children stack cl cids node s = Inr (t, s') \<longrightarrow>
      build_inv cl s0 s' \<and> set (bodyCache s) \<subseteq> set (bodyCache s')
      \<and> node_id t = node_id node \<and> node_body t = node_body node)"
proof (induction stack cl ident s and stack cl cids node s rule: buildRec_induct)
  case (empty_stack cl ident s)
  show ?case by simp
next
  case (call stack cl ident s)
  show ?case
  proof (intro allI impI)
    fix s0 t s' assume inv: "build_inv cl s0 s" and b: "buildRec (Suc stack) cl ident s = Inr (t, s')"
    let ?s1 = "snd (getBody cl ident s)" and ?n = "TreeNode ident (fst (getBody cl ident s)) [] []"
    from getBody_inv[OF inv, of ident] have i1: "build_inv cl s0 ?s1"
      and m1: "set (bodyCache s) \<subseteq> set (bodyCache ?s1)"
      and c1: "(node_id ?n, node_body ?n) \<in> set (bodyCache ?s1)" by auto
    from b obtain ns where ch: "buildRec_children stack cl (adj_get (adjacency cl) ident) ?n ?s1 = Inr ns"
      and fin: "finish_node cl ident ns = (t, s')"
      by (auto simp: buildRec_Suc split: sum.splits)
    obtain t2 s2 where ns: "ns = (t2, s2)" by (cases ns)
    from call[rule_format, OF i1 c1 ch[unfolded ns]] have i2: "build_inv cl s0 s2"
      and m2: "set (bodyCache ?s1) \<subseteq> set (bodyCache s2)"
      and n2: "node_id t2 = ident" "node_body t2 = fst (getBody cl ident s)" by auto
    have c2: "(node_id t2, node_body t2) \<in> set (bodyCache s2)" using c1 m2 n2 by auto
    from finish_node_inv[OF i2 c2, of ident] fin[unfolded ns]
    show "build_inv cl s0 s' \<and> set (bodyCache s) \<subseteq> set (bodyCache s')
      \<and> (ident, node_body t) \<in> set (bodyCache s') \<and> node_id t = ident"
      using m1 m2 c2 n2 by auto
  qed
next
  case (no_children stack cl node s)
  show ?case by simp
next
  case (child stack cl cid cids node s)
  show ?case
  proof (intro allI impI)
    fix s0 t s' assume inv: "build_inv cl s0 s"
      and c: "(node_id node, node_body node) \<in> set (bodyCache s)"
      and b: "buildRec_children stack cl (cid # cids) node s = Inr (t, s')"
    from b obtain ch s1 where r: "buildRec stack cl cid s = Inr (ch, s1)"
      and rest: "buildRec_children stack cl cids (fst (attach_child cl node ch s1))
                   (snd (attach_child cl node ch s1)) = Inr (t, s')"
      by (auto simp: buildRec_children_Cons split: sum.splits)
    from child(1)[rule_format, OF inv r] have i1: "build_inv cl s0 s1"
      and m1: "set (bodyCache s) \<subseteq> set (bodyCache s1)"
      and cc: "(node_id ch, node_body ch) \<in> set (bodyCache s1)" by auto
    have c1: "(node_id node, node_body node) \<in> set (bodyCache s1)" using c m1 by auto
    let ?a = "attach_child cl node ch s1"
    from attach_child_inv[OF i1 c1 cc] have i2: "build_inv cl s0 (snd ?a)"
      and e2: "bodyCache (snd ?a) = bodyCache s1"
      and n2: "node_id (fst ?a) = node_id node" "node_body (fst ?a) = node_body node" by auto
    have c2: "(node_id (fst ?a), node_body (fst ?a)) \<in> set (bodyCache (snd ?a))"
      using c1 by (simp add: e2 n2)
    from child(2)[OF r, rule_format, OF i2 c2 rest]
    show "build_inv cl s0 s' \<and> set (bodyCache s) \<subseteq> set (bodyCache s')
      \<and> node_id t = node_id node \<and> node_body t = node_body node"
      using m1 by (auto simp: e2 n2)
  qed
qed

subsection \<open>The ids of the nodes of a tree\<close>

definition node_ids :: "tree_node \<Rightarrow> string list" where
  "node_ids t = map node_id (traverse t)"

lemma traverse_unfold: "traverse t = t # concat (map traverse (children t))"
  by (cases t) simp

lemma node_ids_unfold: "node_ids t = node_id t # concat (map node_ids (children t))"
  unfolding node_ids_def by (subst traverse_unfold) (simp add: map_concat comp_def)

lemma node_ids_append_child:
  assumes "node_id t' = node_id t" "children t' = children t @ [c]"
  shows "node_ids t' = node_ids t @ node_ids c"
  by (simp add: node_ids_unfold[of t'] node_ids_unfold[of t] assms)

lemma node_ids_leaf [simp]: "node_ids (TreeNode i b [] []) = [i]"
  by (simp add: node_ids_def)

lemma node_ids_snoc [simp]:
  "node_ids (TreeNode (node_id t) b (children t @ [c]) es) = node_ids t @ node_ids c"
  by (rule node_ids_append_child) simp_all

lemma node_ids_attachLeaf:
  "node_ids (fst (attachLeaf this leafBody s)) = node_ids this @ [label leafBody]"
  by simp

lemma attachLeaf_node [simp]:
  "node_id (fst (attachLeaf this leafBody s)) = node_id this"
  "node_body (fst (attachLeaf this leafBody s)) = node_body this"
  by simp_all

text \<open>The labels of the two kinds of leaves, and the number of leaves a call makes when
  \<open>k\<close> random numbers have been drawn before it.\<close>

definition leaf_label :: "string \<Rightarrow> nat \<Rightarrow> string" where
  "leaf_label parent i = ''leaf_'' @ parent @ ''_'' @ nat_str i"

definition terminal_leaf_label :: "string \<Rightarrow> nat \<Rightarrow> string" where
  "terminal_leaf_label parent i = ''terminal_leaf_'' @ parent @ ''_'' @ nat_str i"

lemma addLeafNodes_round_node [simp]:
  "node_id (fst (addLeafNodes_round cl childNode i ps)) = node_id (fst ps)"
  "node_body (fst (addLeafNodes_round cl childNode i ps)) = node_body (fst ps)"
  "node_ids (fst (addLeafNodes_round cl childNode i ps)) = node_ids (fst ps) @ [leaf_label (node_id (fst ps)) i]"
  "bodyCache (snd (addLeafNodes_round cl childNode i ps)) = bodyCache (snd ps)"
  "randoms (snd (addLeafNodes_round cl childNode i ps)) = 2 + randoms (snd ps)"
  by (simp_all add: addLeafNodes_round_def Let_def case_prod_beta leaf_label_def)

lemma addTerminalLeaves_round_node [simp]:
  "node_id (fst (addTerminalLeaves_round cl n i ps)) = node_id (fst ps)"
  "node_body (fst (addTerminalLeaves_round cl n i ps)) = node_body (fst ps)"
  "node_ids (fst (addTerminalLeaves_round cl n i ps)) = node_ids (fst ps) @ [terminal_leaf_label (node_id (fst ps)) i]"
  "bodyCache (snd (addTerminalLeaves_round cl n i ps)) = bodyCache (snd ps)"
  "randoms (snd (addTerminalLeaves_round cl n i ps)) = 1 + randoms (snd ps)"
  by (simp_all add: addTerminalLeaves_round_def Let_def case_prod_beta terminal_leaf_label_def)

lemma fold_rounds:
  assumes "\<And>i ps. node_id (fst (f i ps)) = node_id (fst ps)"
    "\<And>i ps. node_body (fst (f i ps)) = node_body (fst ps)"
    "\<And>i ps. node_ids (fst (f i ps)) = node_ids (fst ps) @ [lbl (node_id (fst ps)) i]"
    "\<And>i ps. bodyCache (snd (f i ps)) = bodyCache (snd ps)"
    "\<And>i ps. randoms (snd (f i ps)) = k + randoms (snd ps)"
  shows "node_id (fst (fold f is ps)) = node_id (fst ps)
       \<and> node_body (fst (fold f is ps)) = node_body (fst ps)
       \<and> node_ids (fst (fold f is ps)) = node_ids (fst ps) @ map (lbl (node_id (fst ps))) is
       \<and> bodyCache (snd (fold f is ps)) = bodyCache (snd ps)
       \<and> randoms (snd (fold f is ps)) = k * length is + randoms (snd ps)"
proof (induction "is" arbitrary: ps)
  case Nil
  then show ?case by simp
next
  case (Cons i "is")
  from Cons.IH[of "f i ps"] show ?case by (simp add: assms)
qed

definition numLeaves_mid :: "closure \<Rightarrow> nat \<Rightarrow> nat" where
  "numLeaves_mid cl k = nat (2 + \<lfloor>Math_random cl k * 3\<rfloor>)"

definition numLeaves_terminal :: "closure \<Rightarrow> nat \<Rightarrow> nat" where
  "numLeaves_terminal cl k = nat (3 + \<lfloor>Math_random cl k * 4\<rfloor>)"

lemma addLeafNodes_node [simp]:
  "node_id (fst (addLeafNodes cl parentNode childNode s)) = node_id parentNode"
  "node_body (fst (addLeafNodes cl parentNode childNode s)) = node_body parentNode"
  "node_ids (fst (addLeafNodes cl parentNode childNode s)) =
     node_ids parentNode @ map (leaf_label (node_id parentNode)) [0 ..< numLeaves_mid cl (randoms s)]"
  "bodyCache (snd (addLeafNodes cl parentNode childNode s)) = bodyCache s"
  "randoms (snd (addLeafNodes cl parentNode childNode s)) = 2 * numLeaves_mid cl (randoms s) + Suc (randoms s)"
proof -
  note r = fold_rounds[of "addLeafNodes_round cl childNode" leaf_label 2
          "[0 ..< numLeaves_mid cl (randoms s)]" "(parentNode, snd (random_next cl s))",
          OF addLeafNodes_round_node, simplified]
  have e: "addLeafNodes cl parentNode childNode s =
      fold (addLeafNodes_round cl childNode) [0 ..< numLeaves_mid cl (randoms s)] (parentNode, snd (random_next cl s))"
    by (simp add: addLeafNodes_def case_prod_beta Let_def numLeaves_mid_def)
  show "node_id (fst (addLeafNodes cl parentNode childNode s)) = node_id parentNode"
    "node_body (fst (addLeafNodes cl parentNode childNode s)) = node_body parentNode"
    "node_ids (fst (addLeafNodes cl parentNode childNode s)) =
       node_ids parentNode @ map (leaf_label (node_id parentNode)) [0 ..< numLeaves_mid cl (randoms s)]"
    "bodyCache (snd (addLeafNodes cl parentNode childNode s)) = bodyCache s"
    "randoms (snd (addLeafNodes cl parentNode childNode s)) = 2 * numLeaves_mid cl (randoms s) + Suc (randoms s)"
    unfolding e using r by simp_all
qed

lemma addTerminalLeaves_node [simp]:
  "node_id (fst (addTerminalLeaves cl terminalNode s)) = node_id terminalNode"
  "node_body (fst (addTerminalLeaves cl terminalNode s)) = node_body terminalNode"
  "node_ids (fst (addTerminalLeaves cl terminalNode s)) =
     node_ids terminalNode @ map (terminal_leaf_label (node_id terminalNode)) [0 ..< numLeaves_terminal cl (randoms s)]"
  "bodyCache (snd (addTerminalLeaves cl terminalNode s)) = bodyCache s"
  "randoms (snd (addTerminalLeaves cl terminalNode s)) = numLeaves_terminal cl (randoms s) + Suc (randoms s)"
proof -
  note r = fold_rounds[of "addTerminalLeaves_round cl (3 + \<lfloor>Math_random cl (randoms s) * 4\<rfloor>)" terminal_leaf_label 1
          "[0 ..< numLeaves_terminal cl (randoms s)]" "(terminalNode, snd (random_next cl s))",
          OF addTerminalLeaves_round_node, simplified]
  have e: "addTerminalLeaves cl terminalNode s =
      fold (addTerminalLeaves_round cl (3 + \<lfloor>Math_random cl (randoms s) * 4\<rfloor>))
        [0 ..< numLeaves_terminal cl (randoms s)] (terminalNode, snd (random_next cl s))"
    by (simp add: addTerminalLeaves_def case_prod_beta Let_def numLeaves_terminal_def)
  show "node_id (fst (addTerminalLeaves cl terminalNode s)) = node_id terminalNode"
    "node_body (fst (addTerminalLeaves cl terminalNode s)) = node_body terminalNode"
    "node_ids (fst (addTerminalLeaves cl terminalNode s)) =
       node_ids terminalNode @ map (terminal_leaf_label (node_id terminalNode)) [0 ..< numLeaves_terminal cl (randoms s)]"
    "bodyCache (snd (addTerminalLeaves cl terminalNode s)) = bodyCache s"
    "randoms (snd (addTerminalLeaves cl terminalNode s)) = numLeaves_terminal cl (randoms s) + Suc (randoms s)"
    unfolding e using r by simp_all
qed

lemma node_ids_addChild [simp]:
  "node_ids (snd (addChild node child opt isLeaf)) = node_ids node @ node_ids child"
  by (rule node_ids_append_child) simp_all

lemma attach_child_node [simp]:
  "node_id (fst (attach_child cl node child s)) = node_id node"
  "node_body (fst (attach_child cl node child s)) = node_body node"
  "node_ids (fst (attach_child cl node child s)) =
     node_ids node @ node_ids child @
     (if depth_positive cl (node_id node)
      then map (leaf_label (node_id node)) [0 ..< numLeaves_mid cl (randoms s)] else [])"
  "bodyCache (snd (attach_child cl node child s)) = bodyCache s"
  "randoms (snd (attach_child cl node child s)) =
     (if depth_positive cl (node_id node) then 2 * numLeaves_mid cl (randoms s) + Suc (randoms s) else randoms s)"
  by (simp_all add: attach_child_def case_prod_beta Let_def)

lemma finish_node_node [simp]:
  "node_id (fst (finish_node cl ident ns)) = node_id (fst ns)"
  "node_body (fst (finish_node cl ident ns)) = node_body (fst ns)"
  "node_ids (fst (finish_node cl ident ns)) =
     node_ids (fst ns) @
     (if adj_get (adjacency cl) ident = [] \<and> depth_positive cl ident
      then map (terminal_leaf_label (node_id (fst ns))) [0 ..< numLeaves_terminal cl (randoms (snd ns))] else [])"
  "bodyCache (snd (finish_node cl ident ns)) = bodyCache (snd ns)"
  "randoms (snd (finish_node cl ident ns)) =
     (if adj_get (adjacency cl) ident = [] \<and> depth_positive cl ident
      then numLeaves_terminal cl (randoms (snd ns)) + Suc (randoms (snd ns)) else randoms (snd ns))"
  by (simp_all add: finish_node_def)

section \<open>The node ids of the built tree\<close>

text \<open>
  \<open>dfs_ids\<close> lists the ids in the order in which \<open>buildRec\<close> is called on them: the
  preorder of the adjacency, repeating an id once for every path that leads to it. It
  gives out when the calls nest deeper than the stack allows, as \<open>buildRec\<close> does. The
  ids of the decorating leaves start with \<open>leaf_\<close> or \<open>terminal_leaf_\<close>.
\<close>

fun dfs_ids :: "nat \<Rightarrow> 'a adjacency \<Rightarrow> 'a \<Rightarrow> 'a list option"
  and dfs_ids_children :: "nat \<Rightarrow> 'a adjacency \<Rightarrow> 'a list \<Rightarrow> 'a list option"
where
  "dfs_ids 0 adj i = None"
| "dfs_ids (Suc n) adj i = map_option (Cons i) (dfs_ids_children n adj (adj_get adj i))"
| "dfs_ids_children n adj [] = Some []"
| "dfs_ids_children n adj (c # cs) =
     (case dfs_ids n adj c of
        None \<Rightarrow> None
      | Some l \<Rightarrow> map_option (append l) (dfs_ids_children n adj cs))"

definition decoration_label :: "string \<Rightarrow> bool" where
  "decoration_label i \<longleftrightarrow> take 5 i = ''leaf_'' \<or> take 14 i = ''terminal_leaf_''"

definition branch_ids :: "tree_node \<Rightarrow> string list" where
  "branch_ids t = filter (\<lambda>i. \<not> decoration_label i) (node_ids t)"

definition plain_ids :: "string adjacency \<Rightarrow> bool" where
  "plain_ids adj \<longleftrightarrow> (\<forall>p c. c \<in> set (adj_get adj p) \<longrightarrow> \<not> decoration_label c)"

lemma decoration_labels [simp]:
  "decoration_label (leaf_label p i)" "decoration_label (terminal_leaf_label p i)"
  by (simp_all add: decoration_label_def leaf_label_def terminal_leaf_label_def)

lemma filter_decoration [simp]:
  "filter (\<lambda>i. \<not> decoration_label i) (map (leaf_label p) is) = []"
  "filter (\<lambda>i. \<not> decoration_label i) (map (terminal_leaf_label p) is) = []"
  by (induction "is") simp_all

lemma getBody_keys:
  "fst ` set (bodyCache (snd (getBody cl ident s))) = insert ident (fst ` set (bodyCache s))"
proof (cases "map_of (bodyCache s) ident")
  case None
  then show ?thesis by (simp add: getBody_fresh)
next
  case (Some b)
  then have "ident \<in> fst ` set (bodyCache s)" by (metis map_of_eq_None_iff option.distinct(1))
  then show ?thesis by (auto simp: getBody_cached[OF Some])
qed

lemma buildRec_ids_both:
  "(\<forall>e. buildRec stack cl ident s = Inl e \<longrightarrow> dfs_ids stack (adjacency cl) ident = None)
   \<and> (\<forall>t s'. buildRec stack cl ident s = Inr (t, s') \<longrightarrow>
        (\<exists>l. dfs_ids stack (adjacency cl) ident = Some l
           \<and> fst ` set (bodyCache s') = fst ` set (bodyCache s) \<union> set l
           \<and> (plain_ids (adjacency cl) \<longrightarrow> \<not> decoration_label ident \<longrightarrow> branch_ids t = l)))"
  "(\<forall>e. buildRec_children stack cl cids node s = Inl e \<longrightarrow> dfs_ids_children stack (adjacency cl) cids = None)
   \<and> (\<forall>t s'. buildRec_children stack cl cids node s = Inr (t, s') \<longrightarrow>
        (\<exists>ls. dfs_ids_children stack (adjacency cl) cids = Some ls
           \<and> fst ` set (bodyCache s') = fst ` set (bodyCache s) \<union> set ls
           \<and> (plain_ids (adjacency cl) \<longrightarrow> (\<forall>c\<in>set cids. \<not> decoration_label c) \<longrightarrow>
                branch_ids t = branch_ids node @ ls)))"
proof (induction stack cl ident s and stack cl cids node s rule: buildRec_induct)
  case (empty_stack cl ident s)
  show ?case by simp
next
  case (call stack cl ident s)
  let ?s1 = "snd (getBody cl ident s)" and ?n = "TreeNode ident (fst (getBody cl ident s)) [] []"
  let ?cids = "adj_get (adjacency cl) ident"
  show ?case
  proof (intro conjI allI impI)
    fix e assume "buildRec (Suc stack) cl ident s = Inl e"
    then have "buildRec_children stack cl ?cids ?n ?s1 = Inl e"
      by (auto simp: buildRec_Suc split: sum.splits)
    with call show "dfs_ids (Suc stack) (adjacency cl) ident = None" by simp
  next
    fix t s' assume b: "buildRec (Suc stack) cl ident s = Inr (t, s')"
    then obtain t2 s2 where ch: "buildRec_children stack cl ?cids ?n ?s1 = Inr (t2, s2)"
      and fin: "finish_node cl ident (t2, s2) = (t, s')"
      by (auto simp: buildRec_Suc split: sum.splits)
    from call ch obtain ls where ls: "dfs_ids_children stack (adjacency cl) ?cids = Some ls"
      and k: "fst ` set (bodyCache s2) = fst ` set (bodyCache ?s1) \<union> set ls"
      and br: "plain_ids (adjacency cl) \<Longrightarrow> (\<forall>c\<in>set ?cids. \<not> decoration_label c) \<Longrightarrow>
                branch_ids t2 = branch_ids ?n @ ls" by blast
    have t: "t = fst (finish_node cl ident (t2, s2))" and s': "s' = snd (finish_node cl ident (t2, s2))"
      using fin by simp_all
    have "dfs_ids (Suc stack) (adjacency cl) ident = Some (ident # ls)" using ls by simp
    moreover have "fst ` set (bodyCache s') = fst ` set (bodyCache s) \<union> set (ident # ls)"
      using k by (simp add: s' getBody_keys)
    moreover have "branch_ids t = ident # ls"
      if p: "plain_ids (adjacency cl)" and d: "\<not> decoration_label ident"
    proof -
      have "\<forall>c\<in>set ?cids. \<not> decoration_label c" using p by (auto simp: plain_ids_def)
      from br[OF p this] d have "branch_ids t2 = ident # ls" by (simp add: branch_ids_def)
      then show ?thesis by (simp add: t branch_ids_def)
    qed
    ultimately show "\<exists>l. dfs_ids (Suc stack) (adjacency cl) ident = Some l
           \<and> fst ` set (bodyCache s') = fst ` set (bodyCache s) \<union> set l
           \<and> (plain_ids (adjacency cl) \<longrightarrow> \<not> decoration_label ident \<longrightarrow> branch_ids t = l)"
      by blast
  qed
next
  case (no_children stack cl node s)
  show ?case by simp
next
  case (child stack cl cid cids node s)
  show ?case
  proof (intro conjI allI impI)
    fix e assume f: "buildRec_children stack cl (cid # cids) node s = Inl e"
    show "dfs_ids_children stack (adjacency cl) (cid # cids) = None"
    proof (cases "buildRec stack cl cid s")
      case (Inl e')
      with child(1) show ?thesis by simp
    next
      case (Inr cs)
      obtain ch s1 where cs: "cs = (ch, s1)" by (cases cs)
      from f Inr have "buildRec_children stack cl cids (fst (attach_child cl node ch s1))
          (snd (attach_child cl node ch s1)) = Inl e"
        by (simp add: buildRec_children_Cons cs)
      with child(2)[OF Inr[unfolded cs]] have "dfs_ids_children stack (adjacency cl) cids = None"
        by blast
      then show ?thesis by (simp split: option.splits)
    qed
  next
    fix t s' assume b: "buildRec_children stack cl (cid # cids) node s = Inr (t, s')"
    then obtain ch s1 where r: "buildRec stack cl cid s = Inr (ch, s1)"
      and rest: "buildRec_children stack cl cids (fst (attach_child cl node ch s1))
                   (snd (attach_child cl node ch s1)) = Inr (t, s')"
      by (auto simp: buildRec_children_Cons split: sum.splits)
    from child(1) r obtain l where l: "dfs_ids stack (adjacency cl) cid = Some l"
      and k1: "fst ` set (bodyCache s1) = fst ` set (bodyCache s) \<union> set l"
      and b1: "plain_ids (adjacency cl) \<Longrightarrow> \<not> decoration_label cid \<Longrightarrow> branch_ids ch = l" by blast
    from child(2)[OF r] rest obtain ls where ls: "dfs_ids_children stack (adjacency cl) cids = Some ls"
      and k2: "fst ` set (bodyCache s') = fst ` set (bodyCache (snd (attach_child cl node ch s1))) \<union> set ls"
      and b2: "plain_ids (adjacency cl) \<Longrightarrow> (\<forall>c\<in>set cids. \<not> decoration_label c) \<Longrightarrow>
                branch_ids t = branch_ids (fst (attach_child cl node ch s1)) @ ls" by blast
    have "dfs_ids_children stack (adjacency cl) (cid # cids) = Some (l @ ls)" using l ls by simp
    moreover have "fst ` set (bodyCache s') = fst ` set (bodyCache s) \<union> set (l @ ls)"
      using k1 k2 by auto
    moreover have "branch_ids t = branch_ids node @ (l @ ls)"
      if p: "plain_ids (adjacency cl)" and d: "\<forall>c\<in>set (cid # cids). \<not> decoration_label c"
    proof -
      have "branch_ids ch = l" using b1[OF p] d by simp
      moreover have "branch_ids t = branch_ids (fst (attach_child cl node ch s1)) @ ls"
        using b2[OF p] d by simp
      ultimately show ?thesis by (simp add: branch_ids_def)
    qed
    ultimately show "\<exists>ls. dfs_ids_children stack (adjacency cl) (cid # cids) = Some ls
           \<and> fst ` set (bodyCache s') = fst ` set (bodyCache s) \<union> set ls
           \<and> (plain_ids (adjacency cl) \<longrightarrow> (\<forall>c\<in>set (cid # cids). \<not> decoration_label c) \<longrightarrow>
                branch_ids t = branch_ids node @ ls)"
      by blast
  qed
qed

section \<open>Adjacencies that describe a tree\<close>

text \<open>
  An adjacency is tree shaped when every id is the key of at most one entry, no id is
  listed as a child twice (in one entry or in two), and the root is nobody's child. It is
  acyclic from the root when no id reachable from the root lies on a cycle.
\<close>

definition tree_shaped :: "'a adjacency \<Rightarrow> 'a \<Rightarrow> bool" where
  "tree_shaped adj rootId \<longleftrightarrow>
     distinct (map fst adj) \<and> distinct (concat (map snd adj)) \<and> rootId \<notin> set (concat (map snd adj))"

definition acyclic_from :: "'a adjacency \<Rightarrow> 'a \<Rightarrow> bool" where
  "acyclic_from adj rootId \<longleftrightarrow> (\<forall>v. (rootId, v) \<in> (edges adj)\<^sup>* \<longrightarrow> (v, v) \<notin> (edges adj)\<^sup>+)"

lemma adj_get_mem: "c \<in> set (adj_get adj p) \<Longrightarrow> (p, adj_get adj p) \<in> set adj"
  by (auto simp: adj_get_def split: option.splits dest: map_of_SomeD)

lemma concat_shared:
  "distinct (concat (map snd adj)) \<Longrightarrow> (p, cs) \<in> set adj \<Longrightarrow> (p', cs') \<in> set adj \<Longrightarrow>
     c \<in> set cs \<Longrightarrow> c \<in> set cs' \<Longrightarrow> p = p' \<and> cs = cs'"
proof (induction adj)
  case Nil
  then show ?case by simp
next
  case (Cons a adj)
  from Cons.prems(1) have d: "distinct (concat (map snd adj))"
    and dis: "set (snd a) \<inter> (\<Union>x\<in>set adj. set (snd x)) = {}" by auto
  consider "(p, cs) = a" "(p', cs') = a" | "(p, cs) = a" "(p', cs') \<in> set adj"
    | "(p, cs) \<in> set adj" "(p', cs') = a" | "(p, cs) \<in> set adj" "(p', cs') \<in> set adj"
    using Cons.prems(2,3) by auto
  then show ?case
  proof cases
    case 1
    then show ?thesis by auto
  next
    case 2
    then have "c \<in> set (snd a)" "c \<in> (\<Union>x\<in>set adj. set (snd x))" using Cons.prems(4,5) by force+
    with dis show ?thesis by blast
  next
    case 3
    then have "c \<in> set (snd a)" "c \<in> (\<Union>x\<in>set adj. set (snd x))" using Cons.prems(4,5) by force+
    with dis show ?thesis by blast
  next
    case 4
    from Cons.IH[OF d 4 Cons.prems(4,5)] show ?thesis .
  qed
qed

lemma tree_shaped_parent:
  assumes "tree_shaped adj rootId" "(p, c) \<in> edges adj" "(p', c) \<in> edges adj"
  shows "p = p'"
  using assms concat_shared[of adj p "adj_get adj p" p' "adj_get adj p'" c]
  by (auto simp: tree_shaped_def edges_def dest: adj_get_mem)

lemma tree_shaped_distinct_children:
  assumes "tree_shaped adj rootId"
  shows "distinct (adj_get adj p)"
proof (cases "adj_get adj p")
  case Nil
  then show ?thesis by simp
next
  case (Cons c cs)
  then have "(p, adj_get adj p) \<in> set adj" using adj_get_mem[of c adj p] by simp
  then have "adj_get adj p \<in> set (map snd adj)" by force
  moreover have "distinct (concat (map snd adj))" using assms by (simp add: tree_shaped_def)
  ultimately show ?thesis by (metis distinct_concat_iff)
qed

lemma tree_shaped_root:
  assumes "tree_shaped adj rootId"
  shows "(p, rootId) \<notin> edges adj"
proof
  assume "(p, rootId) \<in> edges adj"
  then have c: "rootId \<in> set (adj_get adj p)" by (simp add: edges_def)
  from adj_get_mem[OF c] c have "rootId \<in> set (concat (map snd adj))" by force
  with assms show False by (simp add: tree_shaped_def)
qed

lemma tree_shaped_acyclic:
  assumes t: "tree_shaped adj rootId"
  shows "acyclic_from adj rootId"
  unfolding acyclic_from_def
proof (intro allI impI notI)
  fix v assume r: "(rootId, v) \<in> (edges adj)\<^sup>*" and c: "(v, v) \<in> (edges adj)\<^sup>+"
  have up: "(u, u) \<in> (edges adj)\<^sup>+" if e: "(u, w) \<in> edges adj" and w: "(w, w) \<in> (edges adj)\<^sup>+" for u w
  proof -
    from tranclD2[OF w] obtain u' where u': "(w, u') \<in> (edges adj)\<^sup>*" "(u', w) \<in> edges adj" by blast
    from tree_shaped_parent[OF t e u'(2)] have "u = u'" .
    with u'(1) e show ?thesis by (simp add: rtrancl_into_trancl2)
  qed
  from r c have "(rootId, rootId) \<in> (edges adj)\<^sup>+"
    by (induction rule: converse_rtrancl_induct) (auto intro: up)
  from tranclD2[OF this] tree_shaped_root[OF t] show False by blast
qed

lemma tree_shaped_comparable:
  assumes t: "tree_shaped adj rootId"
  shows "(c1, w) \<in> (edges adj)\<^sup>* \<Longrightarrow> (c2, w) \<in> (edges adj)\<^sup>* \<Longrightarrow>
         (c1, c2) \<in> (edges adj)\<^sup>* \<or> (c2, c1) \<in> (edges adj)\<^sup>*"
proof (induction rule: rtrancl_induct)
  case base
  then show ?case by simp
next
  case (step y z)
  from step.prems show ?case
  proof (cases rule: rtranclE)
    case base
    then show ?thesis using step.hyps by auto
  next
    case (step y')
    from tree_shaped_parent[OF t step(2) \<open>(y, z) \<in> edges adj\<close>] have "y' = y" .
    with step(1) step.IH show ?thesis by simp
  qed
qed

lemma tree_shaped_siblings:
  assumes t: "tree_shaped adj rootId" and p: "(rootId, p) \<in> (edges adj)\<^sup>*"
    and c1: "(p, c1) \<in> edges adj" and c2: "(p, c2) \<in> edges adj" and ne: "c1 \<noteq> c2"
    and w1: "(c1, w) \<in> (edges adj)\<^sup>*" and w2: "(c2, w) \<in> (edges adj)\<^sup>*"
  shows False
proof -
  have ac: "(p, p) \<notin> (edges adj)\<^sup>+"
    using tree_shaped_acyclic[OF t] p by (simp add: acyclic_from_def)
  have one: "False" if a: "(p, a) \<in> edges adj" and b: "(p, b) \<in> edges adj" and ab: "a \<noteq> b"
    and r: "(a, b) \<in> (edges adj)\<^sup>*" for a b
  proof -
    from r ab have "(a, b) \<in> (edges adj)\<^sup>+" by (simp add: rtrancl_eq_or_trancl)
    from tranclD2[OF this] obtain u where u: "(a, u) \<in> (edges adj)\<^sup>*" "(u, b) \<in> edges adj" by blast
    from tree_shaped_parent[OF t u(2) b] have "u = p" .
    with u(1) a have "(p, p) \<in> (edges adj)\<^sup>+" by (simp add: rtrancl_into_trancl2)
    with ac show False ..
  qed
  from tree_shaped_comparable[OF t w1 w2] show False
    using one[OF c1 c2 ne] one[OF c2 c1 ne[symmetric]] by blast
qed

subsection \<open>The preorder of the adjacency\<close>

lemma descendants_unfold:
  "{v. (i, v) \<in> (edges adj)\<^sup>*} = insert i {v. \<exists>c\<in>set (adj_get adj i). (c, v) \<in> (edges adj)\<^sup>*}"
proof (intro set_eqI iffI)
  fix v assume "v \<in> {v. (i, v) \<in> (edges adj)\<^sup>*}"
  then have "(i, v) \<in> (edges adj)\<^sup>*" by simp
  then show "v \<in> insert i {v. \<exists>c\<in>set (adj_get adj i). (c, v) \<in> (edges adj)\<^sup>*}"
    by (cases rule: converse_rtranclE) (auto simp: edges_def)
next
  fix v assume "v \<in> insert i {v. \<exists>c\<in>set (adj_get adj i). (c, v) \<in> (edges adj)\<^sup>*}"
  then show "v \<in> {v. (i, v) \<in> (edges adj)\<^sup>*}"
    by (auto simp: edges_def intro: converse_rtrancl_into_rtrancl)
qed

lemma dfs_ids_set_both:
  "(\<forall>l. dfs_ids n adj i = Some l \<longrightarrow> set l = {v. (i, v) \<in> (edges adj)\<^sup>*})"
  "(\<forall>ls. dfs_ids_children n adj cs = Some ls \<longrightarrow> set ls = {v. \<exists>c\<in>set cs. (c, v) \<in> (edges adj)\<^sup>*})"
proof (induction n adj i and n adj cs rule: dfs_ids_dfs_ids_children.induct)
  case (1 adj i)
  show ?case by simp
next
  case (2 n adj i)
  show ?case using 2 by (auto simp: descendants_unfold[of i adj])
next
  case (3 n adj)
  show ?case by simp
next
  case (4 n adj c cs)
  show ?case using 4 by (auto split: option.splits)
qed

lemma dfs_ids_None_both:
  "dfs_ids n adj i = None \<longrightarrow> (\<exists>v. (i, v) \<in> edges adj ^^ n)"
  "dfs_ids_children n adj cs = None \<longrightarrow> (\<exists>c\<in>set cs. \<exists>v. (c, v) \<in> edges adj ^^ n)"
proof (induction n adj i and n adj cs rule: dfs_ids_dfs_ids_children.induct)
  case (1 adj i)
  show ?case by simp
next
  case (2 n adj i)
  show ?case
  proof
    assume "dfs_ids (Suc n) adj i = None"
    then have "dfs_ids_children n adj (adj_get adj i) = None" by simp
    with 2 obtain c v where c: "c \<in> set (adj_get adj i)" and v: "(c, v) \<in> edges adj ^^ n" by blast
    from c have "(i, c) \<in> edges adj" by (simp add: edges_def)
    with v have "(i, v) \<in> edges adj ^^ Suc n" by (meson relpow_Suc_I2)
    then show "\<exists>v. (i, v) \<in> edges adj ^^ Suc n" ..
  qed
next
  case (3 n adj)
  show ?case by simp
next
  case (4 n adj c cs)
  show ?case using 4 by (auto split: option.splits)
qed

lemma walk_bound:
  assumes ac: "acyclic_from adj rootId" and w: "(rootId, v) \<in> edges adj ^^ n"
  shows "n < card (reachable adj rootId)"
proof -
  let ?E = "edges adj"
  from w obtain f where f0: "f 0 = rootId" and fs: "\<And>i. i < n \<Longrightarrow> (f i, f (Suc i)) \<in> ?E"
    by (auto simp: relpow_fun_conv)
  have reach: "(rootId, f i) \<in> ?E\<^sup>*" if "i \<le> n" for i
    using that
  proof (induction i)
    case 0
    then show ?case by (simp add: f0)
  next
    case (Suc i)
    then show ?case using fs[of i] by (auto intro: rtrancl_into_rtrancl)
  qed
  have fwd: "(f i, f (i + Suc k)) \<in> ?E\<^sup>+" if "i + Suc k \<le> n" for i k
    using that
  proof (induction k)
    case 0
    then show ?case using fs[of i] by auto
  next
    case (Suc k)
    then have "(f i, f (i + Suc k)) \<in> ?E\<^sup>+" by simp
    moreover have "(f (i + Suc k), f (Suc (i + Suc k))) \<in> ?E" using Suc.prems by (intro fs) simp
    ultimately show ?case by (simp add: trancl_into_trancl)
  qed
  have inj: "inj_on f {0..n}"
  proof (rule inj_onI)
    fix i j assume i: "i \<in> {0..n}" and j: "j \<in> {0..n}" and e: "f i = f j"
    have no: "False" if "a < b" "b \<le> n" "f a = f b" for a b
    proof -
      from that(1) obtain k where k: "b = a + Suc k" by (auto simp: less_iff_Suc_add)
      from fwd[of a k] that k have "(f a, f a) \<in> ?E\<^sup>+" by simp
      moreover have "(rootId, f a) \<in> ?E\<^sup>*" using reach[of a] that by simp
      ultimately show False using ac by (simp add: acyclic_from_def)
    qed
    show "i = j"
    proof (rule ccontr)
      assume "i \<noteq> j"
      then consider "i < j" | "j < i" by linarith
      then show False using no[of i j] no[of j i] i j e by cases auto
    qed
  qed
  have "f ` {0..n} \<subseteq> reachable adj rootId" using reach by (auto simp: reachable_def)
  then have "card (f ` {0..n}) \<le> card (reachable adj rootId)"
    by (rule card_mono[OF finite_reachable])
  then show ?thesis using inj by (simp add: card_image)
qed

lemma dfs_ids_returns:
  assumes "acyclic_from adj rootId" "card (reachable adj rootId) \<le> n"
  shows "\<exists>l. dfs_ids n adj rootId = Some l"
proof (cases "dfs_ids n adj rootId")
  case None
  with dfs_ids_None_both(1)[of n adj rootId] obtain v where "(rootId, v) \<in> edges adj ^^ n" by blast
  from walk_bound[OF assms(1) this] assms(2) show ?thesis by simp
next
  case (Some l)
  then show ?thesis by simp
qed

lemma dfs_ids_distinct_both:
  assumes t: "tree_shaped adj rootId"
  shows "(rootId, i) \<in> (edges adj)\<^sup>* \<longrightarrow> (\<forall>l. dfs_ids n adj i = Some l \<longrightarrow> distinct l)"
    "(\<forall>p. (rootId, p) \<in> (edges adj)\<^sup>* \<longrightarrow> set cs \<subseteq> set (adj_get adj p) \<longrightarrow> distinct cs \<longrightarrow>
        (\<forall>ls. dfs_ids_children n adj cs = Some ls \<longrightarrow> distinct ls))"
  using t
proof (induction n adj i and n adj cs rule: dfs_ids_dfs_ids_children.induct)
  case (1 adj i)
  show ?case by simp
next
  case (2 n adj i)
  show ?case
  proof (intro impI allI)
    fix l assume r: "(rootId, i) \<in> (edges adj)\<^sup>*" and l: "dfs_ids (Suc n) adj i = Some l"
    then obtain ls where ls: "dfs_ids_children n adj (adj_get adj i) = Some ls" and e: "l = i # ls"
      by auto
    note ts = "2.prems"
    have "distinct ls"
      using "2.IH"[OF ts] r ls tree_shaped_distinct_children[OF ts]
      by blast
    moreover have "i \<notin> set ls"
    proof
      assume "i \<in> set ls"
      with dfs_ids_set_both(2)[of n adj "adj_get adj i"] ls
      obtain c where c: "c \<in> set (adj_get adj i)" "(c, i) \<in> (edges adj)\<^sup>*" by auto
      then have "(i, i) \<in> (edges adj)\<^sup>+" by (simp add: edges_def rtrancl_into_trancl2)
      with tree_shaped_acyclic[OF ts] r show False
        by (simp add: acyclic_from_def)
    qed
    ultimately show "distinct l" by (simp add: e)
  qed
next
  case (3 n adj)
  show ?case by simp
next
  case (4 n adj c cs)
  note ts = "4.prems"
  show ?case
  proof (intro impI allI)
    fix p ls assume r: "(rootId, p) \<in> (edges adj)\<^sup>*" and sub: "set (c # cs) \<subseteq> set (adj_get adj p)"
      and d: "distinct (c # cs)" and res: "dfs_ids_children n adj (c # cs) = Some ls"
    from res obtain l ls' where l: "dfs_ids n adj c = Some l"
      and ls': "dfs_ids_children n adj cs = Some ls'" and e: "ls = l @ ls'"
      by (auto split: option.splits)
    have pc: "(p, c) \<in> edges adj" using sub by (simp add: edges_def)
    then have rc: "(rootId, c) \<in> (edges adj)\<^sup>*" using r by (auto intro: rtrancl_into_rtrancl)
    have d1: "distinct l" using "4.IH"(1)[OF ts] rc l by blast
    have d2: "distinct ls'" using "4.IH"(2)[OF l ts] r sub d ls' by auto
    have "set l \<inter> set ls' = {}"
    proof (rule ccontr)
      assume "set l \<inter> set ls' \<noteq> {}"
      then obtain w where w: "w \<in> set l" "w \<in> set ls'" by blast
      from w(1) dfs_ids_set_both(1)[of n adj c] l have w1: "(c, w) \<in> (edges adj)\<^sup>*" by auto
      from w(2) dfs_ids_set_both(2)[of n adj cs] ls' obtain c' where
        c': "c' \<in> set cs" "(c', w) \<in> (edges adj)\<^sup>*" by auto
      have "c \<noteq> c'" using d c'(1) by auto
      moreover have "(p, c') \<in> edges adj" using sub c'(1) by (auto simp: edges_def)
      ultimately show False using tree_shaped_siblings[OF ts r pc _ _ w1 c'(2)] by blast
    qed
    with d1 d2 show "distinct ls" by (simp add: e)
  qed
qed

subsection \<open>The last steps of \<open>buildTree\<close>\<close>

text \<open>
  The last statement of \<open>buildTree\<close> gives every body of the node list a new velocity
  and changes nothing else: the heaps before and after agree once velocities are
  disregarded (\<open>still\<close>). \<open>rootPin_of\<close> is the pin created for the root.
\<close>

definition still :: "body \<Rightarrow> body" where
  "still b = b\<lparr>velocity := (Some 0, Some 0)\<rparr>"

lemma still_fields [simp]:
  "label (still b) = label b" "circleRadius (still b) = circleRadius b"
  "collisionFilter_group (still b) = collisionFilter_group b" "position (still b) = position b"
  by (simp_all add: still_def)

lemma still_update: "map still (h[b := (h ! b)\<lparr>velocity := v\<rparr>]) = map still h"
proof (cases "b < length h")
  case True
  then show ?thesis by (auto simp: list_eq_iff_nth_eq nth_list_update still_def)
next
  case False
  then have "h[b := (h ! b)\<lparr>velocity := v\<rparr>] = h" by (intro list_update_beyond) simp
  then show ?thesis by simp
qed

lemma setRandomVelocity_fields [simp]:
  "map still (heap (setRandomVelocity cl b s)) = map still (heap s)"
  "world_bodies (setRandomVelocity cl b s) = world_bodies s"
  "world_constraints (setRandomVelocity cl b s) = world_constraints s"
  "nodeBodies (setRandomVelocity cl b s) = nodeBodies s"
  "nodes (setRandomVelocity cl b s) = nodes s"
  "root (setRandomVelocity cl b s) = root s"
  "rootPin (setRandomVelocity cl b s) = rootPin s"
  "bodyCache (setRandomVelocity cl b s) = bodyCache s"
  "randoms (setRandomVelocity cl b s) = Suc (Suc (randoms s))"
  by (simp_all add: setRandomVelocity_def case_prod_beta Let_def random_next_def still_update)

lemma setRandomVelocity_fold [simp]:
  "map still (heap (fold (setRandomVelocity cl) bs s)) = map still (heap s)"
  "world_bodies (fold (setRandomVelocity cl) bs s) = world_bodies s"
  "world_constraints (fold (setRandomVelocity cl) bs s) = world_constraints s"
  "nodeBodies (fold (setRandomVelocity cl) bs s) = nodeBodies s"
  "nodes (fold (setRandomVelocity cl) bs s) = nodes s"
  "root (fold (setRandomVelocity cl) bs s) = root s"
  "rootPin (fold (setRandomVelocity cl) bs s) = rootPin s"
  "bodyCache (fold (setRandomVelocity cl) bs s) = bodyCache s"
  "randoms (fold (setRandomVelocity cl) bs s) = 2 * length bs + randoms s"
  by (induction bs arbitrary: s) simp_all

definition rootPin_of :: "closure \<Rightarrow> tree_node \<Rightarrow> constraint" where
  "rootPin_of cl rt =
     \<lparr>bodyA = None, pointA = Some (Some (fst (center cl)), Some (canvas_height cl - 100)),
      bodyB = node_body rt, length_c = 0, stiffness = 1, damping = 0.9, render = Hidden\<rparr>"

lemma buildFrom_Inr:
  assumes "buildFrom cl rootId stack s0 = Inr (t, s)"
  shows "\<exists>s1. buildRec stack cl rootId (s0\<lparr>idxByDepth := [], bodyCache := []\<rparr>) = Inr (t, s1)
     \<and> map still (heap s) = map still (heap s1)
     \<and> world_bodies s = world_bodies s1 @ map snd (bodyCache s1)
     \<and> world_constraints s = world_constraints s1 @ [rootPin_of cl t]
     \<and> bodyCache s = bodyCache s1
     \<and> nodes s = traverse t \<and> root s = Some t \<and> rootPin s = Some (rootPin_of cl t)
     \<and> nodeBodies s = map node_body (traverse t)"
proof -
  from assms obtain s1 where
    r: "buildRec stack cl rootId (s0\<lparr>idxByDepth := [], bodyCache := []\<rparr>) = Inr (t, s1)"
    by (auto simp: buildFrom_def Let_def split: sum.splits)
  from assms show ?thesis
    unfolding buildFrom_def r
    by (auto simp: Let_def rootPin_of_def World_add_def)
qed

lemma buildFrom_Inl:
  "buildFrom cl rootId stack s0 = Inl e \<longleftrightarrow>
     buildRec stack cl rootId (s0\<lparr>idxByDepth := [], bodyCache := []\<rparr>) = Inl e"
  by (auto simp: buildFrom_def Let_def split: sum.splits)

lemma build_inv_start: "build_inv cl s0 (s0\<lparr>idxByDepth := [], bodyCache := []\<rparr>)"
  by (auto simp: build_inv_def created_def new_bodies_def new_constraints_def)

lemma map_still_nth:
  assumes "map still h' = map still h" "r < length h"
  shows "label (h' ! r) = label (h ! r)" "circleRadius (h' ! r) = circleRadius (h ! r)"
    "collisionFilter_group (h' ! r) = collisionFilter_group (h ! r)" "position (h' ! r) = position (h ! r)"
    "decorative (h' ! r) = decorative (h ! r)"
proof -
  have l: "length h' = length h" using assms(1) by (metis length_map)
  have "still (h' ! r) = still (h ! r)" using assms l by (metis nth_map)
  then have "label (still (h' ! r)) = label (still (h ! r))"
    "circleRadius (still (h' ! r)) = circleRadius (still (h ! r))"
    "collisionFilter_group (still (h' ! r)) = collisionFilter_group (still (h ! r))"
    "position (still (h' ! r)) = position (still (h ! r))" by simp_all
  then show "label (h' ! r) = label (h ! r)" "circleRadius (h' ! r) = circleRadius (h ! r)"
    "collisionFilter_group (h' ! r) = collisionFilter_group (h ! r)" "position (h' ! r) = position (h ! r)"
    by simp_all
  then show "decorative (h' ! r) = decorative (h ! r)" by (simp add: decorative_def)
qed

text \<open>The scene that a completed \<open>buildFrom\<close> leaves.\<close>

lemma buildFrom_summary:
  assumes b: "buildFrom cl rootId stack s0 = Inr (t, s)"
  shows "length (heap s0) \<le> length (heap s)"
    and "\<And>r. created s0 s r \<Longrightarrow> collisionFilter_group (heap s ! r) = group cl"
    and "distinct (map fst (bodyCache s))" and "distinct (map snd (bodyCache s))"
    and "\<And>i r. (i, r) \<in> set (bodyCache s) \<Longrightarrow>
           created s0 s r \<and> label (heap s ! r) = i \<and> \<not> decorative (heap s ! r)"
    and "take (length (world_bodies s0)) (world_bodies s) = world_bodies s0"
    and "\<And>r. r \<in> set (new_bodies s0 s) \<Longrightarrow> created s0 s r"
    and "{r \<in> set (new_bodies s0 s). \<not> decorative (heap s ! r)} = snd ` set (bodyCache s)"
    and "take (length (world_constraints s0)) (world_constraints s) = world_constraints s0"
    and "\<And>c. c \<in> set (new_constraints s0 s) \<Longrightarrow> decorative (heap s ! bodyB c) \<Longrightarrow> leaf_style c"
    and "\<exists>l. dfs_ids stack (adjacency cl) rootId = Some l \<and> fst ` set (bodyCache s) = set l
           \<and> (plain_ids (adjacency cl) \<longrightarrow> \<not> decoration_label rootId \<longrightarrow> branch_ids t = l)"
    and "nodes s = traverse t"
    and "\<And>r. created s0 s r \<Longrightarrow> r \<in> snd ` set (bodyCache s) \<or> decorative (heap s ! r)"
proof -
  let ?s0 = "s0\<lparr>idxByDepth := [], bodyCache := []\<rparr>"
  from buildFrom_Inr[OF b] obtain s1 where
    r: "buildRec stack cl rootId ?s0 = Inr (t, s1)"
    and h: "map still (heap s) = map still (heap s1)"
    and wb: "world_bodies s = world_bodies s1 @ map snd (bodyCache s1)"
    and wc: "world_constraints s = world_constraints s1 @ [rootPin_of cl t]"
    and bc: "bodyCache s = bodyCache s1" and ns: "nodes s = traverse t" by blast
  from buildRec_inv_both(1)[of cl ?s0 stack rootId, rule_format, OF build_inv_start r]
  have inv: "build_inv cl s0 s1" and rc: "(rootId, node_body t) \<in> set (bodyCache s1)" by auto
  have len: "length (heap s) = length (heap s1)" using h by (metis length_map)
  have cr: "\<And>r. created s0 s r = created s0 s1 r" by (simp add: created_def len)
  note nth = map_still_nth[OF h]
  from inv have i1: "length (heap s0) \<le> length (heap s1)"
    and i2: "\<And>r. created s0 s1 r \<Longrightarrow> collisionFilter_group (heap s1 ! r) = group cl"
    and i3: "distinct (map fst (bodyCache s1))" and i4: "distinct (map snd (bodyCache s1))"
    and iL: "\<And>r. created s0 s1 r \<Longrightarrow> r \<in> snd ` set (bodyCache s1) \<or> decorative (heap s1 ! r)"
    and i6: "take (length (world_bodies s0)) (world_bodies s1) = world_bodies s0"
    and i7: "\<And>r. r \<in> set (new_bodies s0 s1) \<Longrightarrow> created s0 s1 r \<and> decorative (heap s1 ! r)"
    and i8: "take (length (world_constraints s0)) (world_constraints s1) = world_constraints s0"
    and i9: "\<And>c. c \<in> set (new_constraints s0 s1) \<Longrightarrow> created s0 s1 (bodyB c) \<and>
         (if decorative (heap s1 ! bodyB c) then leaf_style c else branch_style c)"
    unfolding build_inv_def by blast+
  note i5 = build_inv_cached[OF inv]
  have lwb: "length (world_bodies s0) \<le> length (world_bodies s1)"
    using i6 by (metis length_take min.cobounded1 min_def nat_le_linear take_all)
  have lwc: "length (world_constraints s0) \<le> length (world_constraints s1)"
    using i8 by (metis length_take min.cobounded1 min_def nat_le_linear take_all)
  have nb: "new_bodies s0 s = new_bodies s0 s1 @ map snd (bodyCache s1)"
    using lwb by (simp add: new_bodies_def wb)
  have nc: "new_constraints s0 s = new_constraints s0 s1 @ [rootPin_of cl t]"
    using lwc by (simp add: new_constraints_def wc)
  show "length (heap s0) \<le> length (heap s)" using i1 len by simp
  show "\<And>r. created s0 s r \<Longrightarrow> collisionFilter_group (heap s ! r) = group cl"
    using i2 nth(3) by (auto simp: created_def len)
  show "distinct (map fst (bodyCache s))" "distinct (map snd (bodyCache s))"
    using i3 i4 by (simp_all add: bc)
  show c5: "\<And>i r. (i, r) \<in> set (bodyCache s) \<Longrightarrow>
           created s0 s r \<and> label (heap s ! r) = i \<and> \<not> decorative (heap s ! r)"
    using i5(1,2,5) nth(1,5) by (auto simp: bc created_def len)
  show "take (length (world_bodies s0)) (world_bodies s) = world_bodies s0"
    using i6 lwb by (simp add: wb)
  show "\<And>r. r \<in> set (new_bodies s0 s) \<Longrightarrow> created s0 s r"
    using i7 i5(1) by (auto simp: nb cr)
  show "{r \<in> set (new_bodies s0 s). \<not> decorative (heap s ! r)} = snd ` set (bodyCache s)"
  proof (intro set_eqI iffI)
    fix r assume "r \<in> {r \<in> set (new_bodies s0 s). \<not> decorative (heap s ! r)}"
    then have m: "r \<in> set (new_bodies s0 s1) \<or> r \<in> snd ` set (bodyCache s1)"
      and d: "\<not> decorative (heap s ! r)" by (auto simp: nb)
    show "r \<in> snd ` set (bodyCache s)"
    proof (rule ccontr)
      assume n: "r \<notin> snd ` set (bodyCache s)"
      with m have "r \<in> set (new_bodies s0 s1)" by (simp add: bc)
      from i7[OF this] have "decorative (heap s ! r)" using nth(5)[of r] by (simp add: created_def)
      with d show False ..
    qed
  next
    fix r assume "r \<in> snd ` set (bodyCache s)"
    then obtain i where "(i, r) \<in> set (bodyCache s)" by auto
    from c5[OF this] this show "r \<in> {r \<in> set (new_bodies s0 s). \<not> decorative (heap s ! r)}"
      by (force simp: nb bc)
  qed
  show "take (length (world_constraints s0)) (world_constraints s) = world_constraints s0"
    using i8 lwc by (simp add: wc)
  show "\<And>c. c \<in> set (new_constraints s0 s) \<Longrightarrow> decorative (heap s ! bodyB c) \<Longrightarrow> leaf_style c"
  proof -
    fix c assume c: "c \<in> set (new_constraints s0 s)" and d: "decorative (heap s ! bodyB c)"
    from c consider "c \<in> set (new_constraints s0 s1)" | "c = rootPin_of cl t" by (auto simp: nc)
    then show "leaf_style c"
    proof cases
      case 1
      from i9[OF 1] d nth(5)[of "bodyB c"] show ?thesis by (simp add: created_def split: if_splits)
    next
      case 2
      then have "bodyB c = node_body t" by (simp add: rootPin_of_def)
      with i5(1,5)[OF rc] d nth(5)[of "node_body t"] show ?thesis by (simp add: created_def)
    qed
  qed
  from buildRec_ids_both(1)[of stack cl rootId ?s0] r
  show "\<exists>l. dfs_ids stack (adjacency cl) rootId = Some l \<and> fst ` set (bodyCache s) = set l
           \<and> (plain_ids (adjacency cl) \<longrightarrow> \<not> decoration_label rootId \<longrightarrow> branch_ids t = l)"
    by (fastforce simp: bc)
  show "nodes s = traverse t" by (rule ns)
  show "\<And>r. created s0 s r \<Longrightarrow> r \<in> snd ` set (bodyCache s) \<or> decorative (heap s ! r)"
    using iL nth(5) by (auto simp: bc created_def len)
qed

lemma closure_of_fields [simp]:
  "adjacency (closure_of e adj dm) = adj" "depth (closure_of e adj dm) = dm"
  "group (closure_of e adj dm) = tree_group e" "Math_random (closure_of e adj dm) = Math_random e"
  "canvas_width (closure_of e adj dm) = canvas_width e" "canvas_height (closure_of e adj dm) = canvas_height e"
  by (simp_all add: closure_of_def)

lemma card_reachable_le: "card (reachable adj rootId) \<le> Suc (length (concat (map snd adj)))"
proof -
  have "adj_ids adj = set (concat (map snd adj))" by (auto simp: adj_ids_def)
  then have "card (adj_ids adj) \<le> length (concat (map snd adj))"
    using card_length[of "concat (map snd adj)"] by simp
  moreover have "card (reachable adj rootId) \<le> card (insert rootId (adj_ids adj))"
    by (rule card_mono[OF _ reachable_subset]) (auto simp: adj_ids_def)
  moreover have "card (insert rootId (adj_ids adj)) \<le> Suc (card (adj_ids adj))"
    by (rule card_insert_le_m1) simp_all
  ultimately show ?thesis by linarith
qed

lemma buildFrom_returns:
  assumes "acyclic_from (adjacency cl) rootId" "card (reachable (adjacency cl) rootId) \<le> stack"
  shows "\<exists>t s. buildFrom cl rootId stack s0 = Inr (t, s)"
proof (cases "buildFrom cl rootId stack s0")
  case (Inl e)
  then have "buildRec stack cl rootId (s0\<lparr>idxByDepth := [], bodyCache := []\<rparr>) = Inl e"
    by (simp add: buildFrom_Inl)
  with buildRec_ids_both(1)[of stack cl rootId] have "dfs_ids stack (adjacency cl) rootId = None"
    by blast
  with dfs_ids_returns[OF assms] show ?thesis by simp
next
  case (Inr ts)
  then show ?thesis by (cases ts) simp
qed

lemma buildTree_returns:
  assumes "acyclic_from adj rootId" "card (reachable adj rootId) \<le> stack"
  shows "\<exists>t s. buildTree e adj rootId stack s0 = Inr (t, s)"
  unfolding buildTree_def using assms by (intro buildFrom_returns) simp_all

lemma makeTree_adjacency_eval:
  "makeTree_adjacency =
     [(''root'', [''root2'']), (''root2'', [''A'']), (''A'', [''B'', ''C'']), (''B'', [''D'', ''E'']),
      (''C'', [''F'', ''G'']), (''E'', [''H'', ''I'']), (''G'', [''J''])]"
  by (simp add: makeTree_adjacency_def makeTree_edges_def adj_get_def)

lemma makeTree_tree_shaped: "tree_shaped makeTree_adjacency ''root''"
  by (simp add: tree_shaped_def makeTree_adjacency_eval)

lemma makeTree_returns: "\<exists>t s. buildTree e makeTree_adjacency ''root'' 12 s0 = Inr (t, s)"
proof (rule buildTree_returns[OF tree_shaped_acyclic[OF makeTree_tree_shaped]])
  show "card (reachable makeTree_adjacency ''root'') \<le> 12"
    using card_reachable_le[of makeTree_adjacency "''root''"] by (simp add: makeTree_adjacency_eval)
qed

section \<open>One body per node id\<close>



section \<open>The collision group\<close>

text \<open>The engine's filter rule (\<open>Detector.canCollide\<close> of the physics library) for two
  bodies of one non-zero group: they collide when the group is positive and never when it
  is negative. Other pairs are decided by category and mask, which the program leaves at
  their defaults and the model does not carry.\<close>

definition canCollide :: "body \<Rightarrow> body \<Rightarrow> bool option" where
  "canCollide a b =
     (if collisionFilter_group a = collisionFilter_group b \<and> collisionFilter_group a \<noteq> 0
      then Some (collisionFilter_group a > 0) else None)"

text \<open>
  Claim C9. Every body that \<open>buildTree\<close> creates, for a node or as a decoration between
  two nodes or around a terminal node, carries the one collision group computed in the
  first statement of \<open>buildTree\<close>, and that group is negative, so that the engine's rule
  lets no two of these bodies collide. The group is
  \<open>-Math.abs(probe || Body.nextGroup(true))\<close>; it is negative provided the probe's group
  and the engine's next group are not both zero (the engine's \<open>nextGroup(true)\<close> counts
  down from \<open>-1\<close>).
\<close>

theorem buildTree_one_negative_group:
  assumes "buildTree e adj rootId stack s0 = Inr (t, s)"
    and "probe_group e \<noteq> 0 \<or> next_group e \<noteq> 0"
  shows "tree_group e < 0
       \<and> (\<forall>r. created s0 s r \<longrightarrow> collisionFilter_group (heap s ! r) = tree_group e)
       \<and> (\<forall>r\<in>set (new_bodies s0 s). created s0 s r)
       \<and> (\<forall>i r. (i, r) \<in> set (bodyCache s) \<longrightarrow> created s0 s r)
       \<and> (\<forall>a b. created s0 s a \<and> created s0 s b \<longrightarrow> canCollide (heap s ! a) (heap s ! b) = Some False)"
proof -
  note sm = buildFrom_summary[OF assms(1)[unfolded buildTree_def]]
  have g: "tree_group e < 0" using assms(2) by (auto simp: tree_group_def)
  have grp: "\<And>r. created s0 s r \<Longrightarrow> collisionFilter_group (heap s ! r) = tree_group e"
    using sm(2) by simp
  have cc: "\<And>a b. created s0 s a \<and> created s0 s b \<Longrightarrow> canCollide (heap s ! a) (heap s ! b) = Some False"
    using grp g by (simp add: canCollide_def)
  show ?thesis
  proof (intro conjI allI impI ballI)
    show "tree_group e < 0" by (rule g)
    show "\<And>r. created s0 s r \<Longrightarrow> collisionFilter_group (heap s ! r) = tree_group e" by (rule grp)
    show "\<And>r. r \<in> set (new_bodies s0 s) \<Longrightarrow> created s0 s r" by (rule sm(7))
    show "\<And>i r. (i, r) \<in> set (bodyCache s) \<Longrightarrow> created s0 s r" using sm(5) by blast
    show "\<And>a b. created s0 s a \<and> created s0 s b \<Longrightarrow> canCollide (heap s ! a) (heap s ! b) = Some False"
      by (rule cc)
  qed
qed

theorem buildTree_one_negative_group_witness:
  "\<exists>t s. buildTree example_env makeTree_adjacency ''root'' 12 empty_scene = Inr (t, s)
     \<and> tree_group example_env = - 1
     \<and> (\<forall>r. created empty_scene s r \<longrightarrow> collisionFilter_group (heap s ! r) = - 1)
     \<and> (\<forall>a b. created empty_scene s a \<and> created empty_scene s b \<longrightarrow>
           canCollide (heap s ! a) (heap s ! b) = Some False)"
proof -
  from makeTree_returns[of example_env empty_scene] obtain t s where
    b: "buildTree example_env makeTree_adjacency ''root'' 12 empty_scene = Inr (t, s)" by blast
  have n: "probe_group example_env \<noteq> 0 \<or> next_group example_env \<noteq> 0" by (simp add: example_env_def)
  have g: "tree_group example_env = - 1" by (simp add: tree_group_def example_env_def)
  note th = buildTree_one_negative_group[OF b n, unfolded g]
  note t1 = th[THEN conjunct2, THEN conjunct1]
  note t2 = th[THEN conjunct2, THEN conjunct2, THEN conjunct2, THEN conjunct2]
  from b g t1 t2 show ?thesis by (intro exI conjI)
qed

section \<open>The springs of the decorations\<close>



section \<open>The node list\<close>

text \<open>
  The ids of an adjacency are plain when neither the root nor any child looks like the
  label of a decoration.
\<close>

definition plain_ids_of :: "string adjacency \<Rightarrow> string \<Rightarrow> bool" where
  "plain_ids_of adj rootId \<longleftrightarrow> list_all (\<lambda>i. \<not> decoration_label i) (rootId # concat (map snd adj))"

lemma plain_ids_of_D:
  assumes "plain_ids_of adj rootId"
  shows "plain_ids adj" "\<not> decoration_label rootId"
proof -
  have "\<And>p c. c \<in> set (adj_get adj p) \<Longrightarrow> c \<in> set (concat (map snd adj))"
    using adj_get_mem by force
  with assms show "plain_ids adj" by (auto simp: plain_ids_of_def plain_ids_def list_all_iff)
  from assms show "\<not> decoration_label rootId" by (simp add: plain_ids_of_def)
qed

lemma reachable_root: "rootId \<in> reachable adj rootId"
  by (simp add: reachable_def)

lemma reachable_child:
  "v \<in> reachable adj rootId \<Longrightarrow> c \<in> set (adj_get adj v) \<Longrightarrow> c \<in> reachable adj rootId"
  by (auto simp: reachable_def edges_def intro: rtrancl_into_rtrancl)

lemma count_list_distinct: "distinct l \<Longrightarrow> v \<in> set l \<Longrightarrow> count_list l v = 1"
  by (induction l) auto

lemma count_list_filter: "P v \<Longrightarrow> count_list (filter P l) v = count_list l v"
  by (induction l) auto

text \<open>
  Claim C2, for adjacencies that describe a tree. When the adjacency is tree shaped and
  its ids are plain, \<open>buildTree\<close> returns (given a call stack as deep as the number of
  reachable ids), the node list is the traversal of the tree it returns, and every id
  reachable from the root is the id of exactly one node of the list.
\<close>

theorem buildTree_each_id_once_in_a_tree:
  assumes "tree_shaped adj rootId" and "plain_ids_of adj rootId"
    and "card (reachable adj rootId) \<le> stack"
  shows "\<exists>t s. buildTree e adj rootId stack s0 = Inr (t, s) \<and> nodes s = traverse t
           \<and> (\<forall>v\<in>reachable adj rootId. count_list (map node_id (nodes s)) v = 1)"
proof -
  from buildTree_returns[OF tree_shaped_acyclic[OF assms(1)] assms(3)]
  obtain t s where b: "buildTree e adj rootId stack s0 = Inr (t, s)" by blast
  note sm = buildFrom_summary[OF b[unfolded buildTree_def]]
  from sm(11) plain_ids_of_D[OF assms(2)] obtain l where
    l: "dfs_ids stack adj rootId = Some l" and br: "branch_ids t = l" by auto
  have d: "distinct l" using dfs_ids_distinct_both(1)[OF assms(1), of rootId stack] l by simp
  have s: "set l = reachable adj rootId"
    using dfs_ids_set_both(1)[of stack adj rootId] l by (simp add: reachable_def)
  have "count_list (map node_id (nodes s)) v = 1" if v: "v \<in> reachable adj rootId" for v
  proof -
    from v s have vl: "v \<in> set l" by simp
    then have nd: "\<not> decoration_label v" using br by (auto simp: branch_ids_def)
    have "count_list (node_ids t) v = count_list (branch_ids t) v"
      unfolding branch_ids_def using nd by (simp add: count_list_filter)
    also have "\<dots> = 1" using d vl by (simp add: br count_list_distinct)
    finally show ?thesis by (simp add: sm(12) node_ids_def)
  qed
  with b sm(12) show ?thesis by blast
qed

lemma makeTree_plain_ids: "plain_ids_of makeTree_adjacency ''root''"
  by (simp add: plain_ids_of_def makeTree_adjacency_eval decoration_label_def)

theorem buildTree_each_id_once_in_a_tree_witness:
  "tree_shaped makeTree_adjacency ''root'' \<and> plain_ids_of makeTree_adjacency ''root''
   \<and> ''J'' \<in> reachable makeTree_adjacency ''root''
   \<and> (\<exists>t s. buildTree example_env makeTree_adjacency ''root'' 12 empty_scene = Inr (t, s)
         \<and> count_list (map node_id (nodes s)) ''J'' = 1)"
proof -
  have c: "card (reachable makeTree_adjacency ''root'') \<le> 12"
    using card_reachable_le[of makeTree_adjacency "''root''"] by (simp add: makeTree_adjacency_eval)
  have "''root2'' \<in> reachable makeTree_adjacency ''root''"
    by (rule reachable_child[OF reachable_root]) (simp add: makeTree_adjacency_eval adj_get_def)
  then have "''A'' \<in> reachable makeTree_adjacency ''root''"
    by (rule reachable_child) (simp add: makeTree_adjacency_eval adj_get_def)
  then have "''C'' \<in> reachable makeTree_adjacency ''root''"
    by (rule reachable_child) (simp add: makeTree_adjacency_eval adj_get_def)
  then have "''G'' \<in> reachable makeTree_adjacency ''root''"
    by (rule reachable_child) (simp add: makeTree_adjacency_eval adj_get_def)
  then have j: "''J'' \<in> reachable makeTree_adjacency ''root''"
    by (rule reachable_child) (simp add: makeTree_adjacency_eval adj_get_def)
  from buildTree_each_id_once_in_a_tree[OF makeTree_tree_shaped makeTree_plain_ids c, of example_env empty_scene]
  obtain t s where "buildTree example_env makeTree_adjacency ''root'' 12 empty_scene = Inr (t, s)"
    and "\<forall>v\<in>reachable makeTree_adjacency ''root''. count_list (map node_id (nodes s)) v = 1" by blast
  with j have "\<exists>t s. buildTree example_env makeTree_adjacency ''root'' 12 empty_scene = Inr (t, s)
         \<and> count_list (map node_id (nodes s)) ''J'' = 1" by blast
  with makeTree_tree_shaped makeTree_plain_ids j show ?thesis by blast
qed

lemma diamond_node_list:
  "''c'' \<in> reachable diamond ''r''
   \<and> (case buildTree example_env diamond ''r'' 4 empty_scene of
         Inl e \<Rightarrow> False
       | Inr (t, s) \<Rightarrow> map node_id (nodes s) = node_ids t \<and> count_list (node_ids t) ''c'' = 2)"
proof -
  have "''a'' \<in> reachable diamond ''r''"
    by (rule reachable_child[OF reachable_root]) (simp add: diamond_def adj_get_def)
  then have c: "''c'' \<in> reachable diamond ''r''"
    by (rule reachable_child) (simp add: diamond_def adj_get_def)
  have d: "dfs_ids 4 diamond ''r'' = Some [''r'', ''a'', ''c'', ''b'', ''c'']"
    by (simp add: eval_nat_numeral diamond_def adj_get_def)
  have p: "plain_ids_of diamond ''r''"
    by (simp add: plain_ids_of_def diamond_def decoration_label_def)
  show ?thesis
  proof (cases "buildTree example_env diamond ''r'' 4 empty_scene")
    case (Inl err)
    then have "buildRec 4 (closure_of example_env diamond (bfs_depth diamond ''r'')) ''r''
        (empty_scene\<lparr>idxByDepth := [], bodyCache := []\<rparr>) = Inl err"
      by (simp add: buildTree_def buildFrom_Inl)
    with buildRec_ids_both(1)[of 4 "closure_of example_env diamond (bfs_depth diamond ''r'')" "''r''"]
    have "dfs_ids 4 diamond ''r'' = None" by auto
    with d show ?thesis by simp
  next
    case (Inr ts)
    obtain t s where ts: "ts = (t, s)" by (cases ts)
    note sm = buildFrom_summary[OF Inr[unfolded buildTree_def ts]]
    from sm(11) plain_ids_of_D[OF p] d have br: "branch_ids t = [''r'', ''a'', ''c'', ''b'', ''c'']"
      by auto
    have "\<not> decoration_label ''c''" by (simp add: decoration_label_def)
    then have "count_list (node_ids t) ''c'' = count_list (branch_ids t) ''c''"
      unfolding branch_ids_def by (simp add: count_list_filter)
    then have "count_list (node_ids t) ''c'' = 2" by (simp add: br)
    with c show ?thesis by (simp add: Inr ts sm(12) node_ids_def)
  qed
qed

text \<open>
  On an adjacency in which two parents share a child, \<open>buildRec\<close> is called on the child
  once per parent and makes a node each time: the node list of the diamond
  \<open>r \<rightarrow> a, b\<close>, \<open>a \<rightarrow> c\<close>, \<open>b \<rightarrow> c\<close> holds the id \<open>c\<close> twice.
\<close>

theorem buildTree_each_id_once_counterexample:
  "''c'' \<in> reachable diamond ''r''
   \<and> \<not> isl (buildTree example_env diamond ''r'' 4 empty_scene)
   \<and> count_list (map node_id (nodes (snd (projr (buildTree example_env diamond ''r'' 4 empty_scene))))) ''c'' = 2"
  using diamond_node_list
  by (cases "buildTree example_env diamond ''r'' 4 empty_scene") auto

section \<open>What the depth map decides\<close>

text \<open>
  Two scenes are the same but for positions when they agree in everything except the
  positions of their bodies; two closures are the same but for depth when they agree in
  everything except the depth map (and the counts and slots derived from it), and their
  depth maps give a positive depth to the same ids.
\<close>

definition strip_body :: "body \<Rightarrow> body" where
  "strip_body b = b\<lparr>position := (None, None)\<rparr>"

definition same_but_positions :: "scene \<Rightarrow> scene \<Rightarrow> bool" where
  "same_but_positions s1 s2 \<longleftrightarrow>
     map strip_body (heap s1) = map strip_body (heap s2)
   \<and> world_bodies s1 = world_bodies s2 \<and> world_constraints s1 = world_constraints s2
   \<and> nodeBodies s1 = nodeBodies s2 \<and> nodes s1 = nodes s2 \<and> root s1 = root s2
   \<and> rootPin s1 = rootPin s2 \<and> randoms s1 = randoms s2 \<and> bodyCache s1 = bodyCache s2"

definition same_but_depth :: "closure \<Rightarrow> closure \<Rightarrow> bool" where
  "same_but_depth cl1 cl2 \<longleftrightarrow>
     canvas_width cl1 = canvas_width cl2 \<and> canvas_height cl1 = canvas_height cl2
   \<and> Math_random cl1 = Math_random cl2 \<and> adjacency cl1 = adjacency cl2 \<and> group cl1 = group cl2
   \<and> (\<forall>i. depth_positive cl1 i = depth_positive cl2 i)"

lemma same_heap_length:
  "same_but_positions s1 s2 \<Longrightarrow> length (heap s1) = length (heap s2)"
  unfolding same_but_positions_def by (metis length_map)

lemma map_eq_nth: "map f xs = map f ys \<Longrightarrow> f (xs ! n) = f (ys ! n)"
proof (induction xs arbitrary: ys n)
  case Nil
  then show ?case by simp
next
  case (Cons x xs)
  then obtain y ys' where "ys = y # ys'" "f x = f y" "map f xs = map f ys'" by auto
  with Cons.IH show ?case by (cases n) simp_all
qed

lemma same_group:
  assumes "same_but_positions s1 s2"
  shows "collisionFilter_group (heap s1 ! r) = collisionFilter_group (heap s2 ! r)"
proof -
  have "strip_body (heap s1 ! r) = strip_body (heap s2 ! r)"
    using assms by (intro map_eq_nth) (simp add: same_but_positions_def)
  then have "collisionFilter_group (strip_body (heap s1 ! r)) = collisionFilter_group (strip_body (heap s2 ! r))"
    by simp
  then show ?thesis by (simp add: strip_body_def)
qed

lemma strip_body_Bodies_circle:
  "strip_body ((Bodies_circle x y r fa fill stroke lw g)\<lparr>label := l\<rparr>)
     = strip_body ((Bodies_circle x' y' r fa fill stroke lw g)\<lparr>label := l\<rparr>)"
  by (simp add: strip_body_def Bodies_circle_def)

lemma alloc_sim:
  assumes "same_but_positions s1 s2" "strip_body b1 = strip_body b2"
  shows "fst (alloc b1 s1) = fst (alloc b2 s2)"
    "same_but_positions (snd (alloc b1 s1)) (snd (alloc b2 s2))"
  using assms same_heap_length[OF assms(1)] by (simp_all add: same_but_positions_def alloc_def)

lemma random_next_sim:
  assumes "same_but_positions s1 s2" "same_but_depth cl1 cl2"
  shows "fst (random_next cl1 s1) = fst (random_next cl2 s2)"
    "same_but_positions (snd (random_next cl1 s1)) (snd (random_next cl2 s2))"
  using assms by (simp_all add: same_but_positions_def same_but_depth_def random_next_def)

lemma World_add_sim:
  assumes "same_but_positions s1 s2"
  shows "same_but_positions (World_add bs cs s1) (World_add bs cs s2)"
  using assms by (simp add: same_but_positions_def World_add_def)

lemma makeBody_sim:
  assumes s: "same_but_positions s1 s2" and c: "same_but_depth cl1 cl2"
  shows "fst (makeBody cl1 ident s1) = fst (makeBody cl2 ident s2)"
    "same_but_positions (snd (makeBody cl1 ident s1)) (snd (makeBody cl2 ident s2))"
proof -
  have g: "group cl1 = group cl2" using c by (simp add: same_but_depth_def)
  show "fst (makeBody cl1 ident s1) = fst (makeBody cl2 ident s2)"
    using same_heap_length[OF s] by simp
  have "strip_body (makeBody_body cl1 ident s1) = strip_body (makeBody_body cl2 ident s2)"
    using g by (simp add: makeBody_body_def Let_def strip_body_def Bodies_circle_def)
  then show "same_but_positions (snd (makeBody cl1 ident s1)) (snd (makeBody cl2 ident s2))"
    using s by (simp add: same_but_positions_def)
qed

lemma getBody_sim:
  assumes s: "same_but_positions s1 s2" and c: "same_but_depth cl1 cl2"
  shows "fst (getBody cl1 ident s1) = fst (getBody cl2 ident s2)
       \<and> same_but_positions (snd (getBody cl1 ident s1)) (snd (getBody cl2 ident s2))"
proof -
  have bc: "bodyCache s1 = bodyCache s2" using s by (simp add: same_but_positions_def)
  show ?thesis
  proof (cases "map_of (bodyCache s1) ident")
    case (Some b)
    then show ?thesis using s bc by (simp add: getBody_def)
  next
    case None
    have m: "bodyCache (snd (makeBody cl1 ident s1)) = bodyCache (snd (makeBody cl2 ident s2))"
      using bc by simp
    from makeBody_sim[OF s c, of ident] None bc show ?thesis
      by (simp add: getBody_def case_prod_beta same_but_positions_def)
  qed
qed

lemma attachLeaf_sim:
  assumes s: "same_but_positions s1 s2" and b: "strip_body b1 = strip_body b2"
  shows "fst (attachLeaf this b1 s1) = fst (attachLeaf this b2 s2)
       \<and> same_but_positions (snd (attachLeaf this b1 s1)) (snd (attachLeaf this b2 s2))"
proof -
  have l: "label b1 = label b2"
  proof -
    from b have "label (strip_body b1) = label (strip_body b2)" by simp
    then show ?thesis by (simp add: strip_body_def)
  qed
  show ?thesis
    using s b l same_heap_length[OF s] by (simp add: same_but_positions_def)
qed

lemma strip_leafBody_at:
  "g = g' \<Longrightarrow> strip_body (leafBody_at x y g l) = strip_body (leafBody_at x' y' g' l)"
  by (simp add: leafBody_at_def strip_body_def Bodies_circle_def)

lemma addLeafNodes_round_sim:
  assumes s: "same_but_positions s1 s2" and c: "same_but_depth cl1 cl2"
  shows "fst (addLeafNodes_round cl1 childNode i (p, s1)) = fst (addLeafNodes_round cl2 childNode i (p, s2))
       \<and> same_but_positions (snd (addLeafNodes_round cl1 childNode i (p, s1)))
            (snd (addLeafNodes_round cl2 childNode i (p, s2)))"
proof -
  note r1 = random_next_sim[OF s c]
  note r2 = random_next_sim[OF r1(2) c]
  show ?thesis
    unfolding addLeafNodes_round_def Let_def case_prod_beta fst_conv snd_conv
    by (rule attachLeaf_sim[OF r2(2)]) (rule strip_leafBody_at, rule same_group[OF s])
qed

lemma addTerminalLeaves_round_sim:
  assumes s: "same_but_positions s1 s2" and c: "same_but_depth cl1 cl2"
  shows "fst (addTerminalLeaves_round cl1 n i (p, s1)) = fst (addTerminalLeaves_round cl2 n i (p, s2))
       \<and> same_but_positions (snd (addTerminalLeaves_round cl1 n i (p, s1)))
            (snd (addTerminalLeaves_round cl2 n i (p, s2)))"
proof -
  note r1 = random_next_sim[OF s c]
  show ?thesis
    unfolding addTerminalLeaves_round_def Let_def case_prod_beta fst_conv snd_conv
    by (rule attachLeaf_sim[OF r1(2)]) (rule strip_leafBody_at, rule same_group[OF s])
qed

lemma fold_sim:
  assumes step: "\<And>i p s1 s2. same_but_positions s1 s2 \<Longrightarrow>
        fst (f i (p, s1)) = fst (g i (p, s2)) \<and> same_but_positions (snd (f i (p, s1))) (snd (g i (p, s2)))"
    and s: "same_but_positions s1 s2"
  shows "fst (fold f is (p, s1)) = fst (fold g is (p, s2))
       \<and> same_but_positions (snd (fold f is (p, s1))) (snd (fold g is (p, s2)))"
  using s
proof (induction "is" arbitrary: p s1 s2)
  case Nil
  then show ?case by simp
next
  case (Cons i "is")
  from step[OF Cons.prems, of i p] have
    a: "fst (f i (p, s1)) = fst (g i (p, s2))"
    and b: "same_but_positions (snd (f i (p, s1))) (snd (g i (p, s2)))" by auto
  from Cons.IH[OF b, of "fst (f i (p, s1))"] show ?case
    by (simp add: a[symmetric]) (metis a prod.collapse)
qed

lemma addLeafNodes_sim:
  assumes s: "same_but_positions s1 s2" and c: "same_but_depth cl1 cl2"
  shows "fst (addLeafNodes cl1 p ch s1) = fst (addLeafNodes cl2 p ch s2)
       \<and> same_but_positions (snd (addLeafNodes cl1 p ch s1)) (snd (addLeafNodes cl2 p ch s2))"
proof -
  note r = random_next_sim[OF s c]
  have n: "nat (2 + \<lfloor>fst (random_next cl1 s1) * 3\<rfloor>) = nat (2 + \<lfloor>fst (random_next cl2 s2) * 3\<rfloor>)"
    using r(1) by simp
  from fold_sim[of "addLeafNodes_round cl1 ch" "addLeafNodes_round cl2 ch", OF addLeafNodes_round_sim[OF _ c] r(2)]
  show ?thesis unfolding addLeafNodes_def Let_def case_prod_beta n by blast
qed

lemma addTerminalLeaves_sim:
  assumes s: "same_but_positions s1 s2" and c: "same_but_depth cl1 cl2"
  shows "fst (addTerminalLeaves cl1 p s1) = fst (addTerminalLeaves cl2 p s2)
       \<and> same_but_positions (snd (addTerminalLeaves cl1 p s1)) (snd (addTerminalLeaves cl2 p s2))"
proof -
  note r = random_next_sim[OF s c]
  have n: "3 + \<lfloor>fst (random_next cl1 s1) * 4\<rfloor> = 3 + \<lfloor>fst (random_next cl2 s2) * 4\<rfloor>"
    using r(1) by simp
  from fold_sim[of "addTerminalLeaves_round cl1 _" "addTerminalLeaves_round cl2 _",
      OF addTerminalLeaves_round_sim[OF _ c] r(2)]
  show ?thesis unfolding addTerminalLeaves_def Let_def case_prod_beta n by blast
qed

lemma attach_child_sim:
  assumes s: "same_but_positions s1 s2" and c: "same_but_depth cl1 cl2"
  shows "fst (attach_child cl1 node ch s1) = fst (attach_child cl2 node ch s2)
       \<and> same_but_positions (snd (attach_child cl1 node ch s1)) (snd (attach_child cl2 node ch s2))"
proof -
  have d: "depth_positive cl1 (node_id node) = depth_positive cl2 (node_id node)"
    using c by (simp add: same_but_depth_def)
  note w = World_add_sim[OF s, of "[]" "[fst (addChild node ch CFG_spring False)]"]
  show ?thesis
    unfolding attach_child_def Let_def case_prod_beta d
    using addLeafNodes_sim[OF w c] w by simp
qed

lemma finish_node_sim:
  assumes s: "same_but_positions s1 s2" and c: "same_but_depth cl1 cl2"
  shows "fst (finish_node cl1 ident (node, s1)) = fst (finish_node cl2 ident (node, s2))
       \<and> same_but_positions (snd (finish_node cl1 ident (node, s1))) (snd (finish_node cl2 ident (node, s2)))"
proof -
  have d: "depth_positive cl1 ident = depth_positive cl2 ident" "adjacency cl1 = adjacency cl2"
    using c by (simp_all add: same_but_depth_def)
  show ?thesis
    unfolding finish_node_def d fst_conv snd_conv
    using addTerminalLeaves_sim[OF s c] s by simp
qed

text \<open>Two runs have the same result when both fail with the same error, or both return
  the same tree and scenes that are the same but for positions.\<close>

definition same_result :: "error + tree_node \<times> scene \<Rightarrow> error + tree_node \<times> scene \<Rightarrow> bool" where
  "same_result r1 r2 =
     (case r1 of
        Inl e1 \<Rightarrow> r2 = Inl e1
      | Inr ts1 \<Rightarrow> (case r2 of Inl e2 \<Rightarrow> False
                   | Inr ts2 \<Rightarrow> fst ts1 = fst ts2 \<and> same_but_positions (snd ts1) (snd ts2)))"

lemma same_result_Inr:
  "same_result (Inr (t1, s1)) r2 \<longleftrightarrow> (\<exists>s2. r2 = Inr (t1, s2) \<and> same_but_positions s1 s2)"
  by (auto simp: same_result_def split: sum.splits)

lemma buildRec_sim_both:
  "(\<forall>cl2 s2. same_but_depth cl cl2 \<longrightarrow> same_but_positions s s2 \<longrightarrow>
      same_result (buildRec stack cl ident s) (buildRec stack cl2 ident s2))"
  "(\<forall>cl2 s2. same_but_depth cl cl2 \<longrightarrow> same_but_positions s s2 \<longrightarrow>
      same_result (buildRec_children stack cl cids node s) (buildRec_children stack cl2 cids node s2))"
proof (induction stack cl ident s and stack cl cids node s rule: buildRec_induct)
  case (empty_stack cl ident s)
  show ?case by (simp add: same_result_def)
next
  case (call stack cl ident s)
  show ?case
  proof (intro allI impI)
    fix cl2 s2 assume c: "same_but_depth cl cl2" and s: "same_but_positions s s2"
    have a: "adjacency cl2 = adjacency cl" using c by (simp add: same_but_depth_def)
    from getBody_sim[OF s c, of ident] have g1: "fst (getBody cl2 ident s2) = fst (getBody cl ident s)"
      and g2: "same_but_positions (snd (getBody cl ident s)) (snd (getBody cl2 ident s2))" by simp_all
    from call[rule_format, OF c g2]
    have ch: "same_result
        (buildRec_children stack cl (adj_get (adjacency cl) ident)
           (TreeNode ident (fst (getBody cl ident s)) [] []) (snd (getBody cl ident s)))
        (buildRec_children stack cl2 (adj_get (adjacency cl) ident)
           (TreeNode ident (fst (getBody cl ident s)) [] []) (snd (getBody cl2 ident s2)))" .
    show "same_result (buildRec (Suc stack) cl ident s) (buildRec (Suc stack) cl2 ident s2)"
    proof (cases "buildRec_children stack cl (adj_get (adjacency cl) ident)
           (TreeNode ident (fst (getBody cl ident s)) [] []) (snd (getBody cl ident s))")
      case (Inl e)
      with ch show ?thesis by (simp add: buildRec_Suc a g1 same_result_def)
    next
      case (Inr ns)
      obtain t1 s1 where ns: "ns = (t1, s1)" by (cases ns)
      from ch[unfolded Inr ns same_result_Inr] obtain s1' where
        r2: "buildRec_children stack cl2 (adj_get (adjacency cl) ident)
           (TreeNode ident (fst (getBody cl ident s)) [] []) (snd (getBody cl2 ident s2)) = Inr (t1, s1')"
        and ss: "same_but_positions s1 s1'" by blast
      from finish_node_sim[OF ss c, of ident t1] show ?thesis
        by (simp add: buildRec_Suc a g1 Inr ns r2 same_result_def)
    qed
  qed
next
  case (no_children stack cl node s)
  show ?case by (simp add: same_result_def)
next
  case (child stack cl cid cids node s)
  show ?case
  proof (intro allI impI)
    fix cl2 s2 assume c: "same_but_depth cl cl2" and s: "same_but_positions s s2"
    from child(1)[rule_format, OF c s]
    have r: "same_result (buildRec stack cl cid s) (buildRec stack cl2 cid s2)" .
    show "same_result (buildRec_children stack cl (cid # cids) node s)
            (buildRec_children stack cl2 (cid # cids) node s2)"
    proof (cases "buildRec stack cl cid s")
      case (Inl e)
      with r show ?thesis by (simp add: buildRec_children_Cons same_result_def)
    next
      case (Inr cs)
      obtain ch s1 where cs: "cs = (ch, s1)" by (cases cs)
      from r[unfolded Inr cs same_result_Inr] obtain s1' where
        r2: "buildRec stack cl2 cid s2 = Inr (ch, s1')" and ss: "same_but_positions s1 s1'" by blast
      from attach_child_sim[OF ss c, of node ch] have
        a1: "fst (attach_child cl2 node ch s1') = fst (attach_child cl node ch s1)"
        and a2: "same_but_positions (snd (attach_child cl node ch s1)) (snd (attach_child cl2 node ch s1'))"
        by simp_all
      from child(2)[OF Inr[unfolded cs], rule_format, OF c a2]
      show ?thesis by (simp add: buildRec_children_Cons Inr cs r2 a1)
    qed
  qed
qed

lemma strip_body_velocity:
  "strip_body x = strip_body y \<Longrightarrow> strip_body (x\<lparr>velocity := v\<rparr>) = strip_body (y\<lparr>velocity := v\<rparr>)"
  by (cases x; cases y) (simp add: strip_body_def)

lemma setRandomVelocity_sim:
  assumes s: "same_but_positions s1 s2" and c: "same_but_depth cl1 cl2"
  shows "same_but_positions (setRandomVelocity cl1 b s1) (setRandomVelocity cl2 b s2)"
proof -
  have m: "Math_random cl1 = Math_random cl2" using c by (simp add: same_but_depth_def)
  have r: "randoms s1 = randoms s2" using s by (simp add: same_but_positions_def)
  have h: "map strip_body (heap s1) = map strip_body (heap s2)" using s by (simp add: same_but_positions_def)
  have "strip_body ((heap s1 ! b)\<lparr>velocity := v\<rparr>) = strip_body ((heap s2 ! b)\<lparr>velocity := v\<rparr>)" for v
    by (rule strip_body_velocity[OF map_eq_nth[OF h]])
  then have "map strip_body ((heap s1)[b := (heap s1 ! b)\<lparr>velocity := v\<rparr>])
           = map strip_body ((heap s2)[b := (heap s2 ! b)\<lparr>velocity := v\<rparr>])" for v
    using h by (simp add: map_update)
  then show ?thesis
    using s by (simp add: setRandomVelocity_def case_prod_beta Let_def random_next_def m r same_but_positions_def)
qed

lemma setRandomVelocity_fold_sim:
  assumes c: "same_but_depth cl1 cl2"
  shows "same_but_positions s1 s2 \<Longrightarrow>
     same_but_positions (fold (setRandomVelocity cl1) bs s1) (fold (setRandomVelocity cl2) bs s2)"
proof (induction bs arbitrary: s1 s2)
  case Nil
  then show ?case by simp
next
  case (Cons b bs)
  from Cons.IH[OF setRandomVelocity_sim[OF Cons.prems c]] show ?case by simp
qed

lemma buildFrom_sim:
  assumes c: "same_but_depth cl1 cl2"
  shows "same_result (buildFrom cl1 rootId stack s0) (buildFrom cl2 rootId stack s0)"
proof -
  let ?s = "s0\<lparr>idxByDepth := [], bodyCache := []\<rparr>"
  have s: "same_but_positions ?s ?s" by (simp add: same_but_positions_def)
  from buildRec_sim_both(1)[of cl1 ?s stack rootId, rule_format, OF c s]
  have r: "same_result (buildRec stack cl1 rootId ?s) (buildRec stack cl2 rootId ?s)" .
  have w: "canvas_width cl1 = canvas_width cl2" "canvas_height cl1 = canvas_height cl2"
    using c by (simp_all add: same_but_depth_def)
  show ?thesis
  proof (cases "buildRec stack cl1 rootId ?s")
    case (Inl e)
    with r show ?thesis by (simp add: buildFrom_def same_result_def)
  next
    case (Inr ts)
    obtain t s1 where ts: "ts = (t, s1)" by (cases ts)
    from r[unfolded Inr ts same_result_Inr] obtain s2 where
      r2: "buildRec stack cl2 rootId ?s = Inr (t, s2)" and ss: "same_but_positions s1 s2" by blast
    let ?f = "\<lambda>cl s. (World_add [] [rootPin_of cl t] ((World_add (map snd (bodyCache s)) [] s)
                \<lparr>rootPin := Some (rootPin_of cl t)\<rparr>))
                \<lparr>root := Some t, nodes := traverse t, nodeBodies := map node_body (traverse t)\<rparr>"
    have p: "rootPin_of cl1 t = rootPin_of cl2 t" by (simp add: rootPin_of_def center_def w)
    have "same_but_positions (?f cl1 s1) (?f cl2 s2)"
      using ss p by (simp add: same_but_positions_def World_add_def)
    from setRandomVelocity_fold_sim[OF c this, of "map node_body (traverse t)"]
    show ?thesis
      by (simp add: buildFrom_def Inr ts r2 Let_def same_result_def rootPin_of_def)
  qed
qed

text \<open>
  Claim C3, with what the code reads of the depth map. Besides the seed positions, the
  builder reads of the depth map only whether an id's depth is positive (the two tests
  \<open>depth.get(id) > 0\<close> of \<open>buildRec\<close>). For two depth maps that give a positive depth
  to the same ids, the two constructions fail alike or return the same tree and scenes
  that differ only in the positions of the bodies: the same nodes and node list, the same
  constraints, the same decorative leaves, the same cache and world.
\<close>

theorem depth_values_only_seed_positions:
  assumes "\<forall>i. positive_in d1 i = positive_in d2 i"
  shows "same_result (buildFrom (closure_of e adj d1) rootId stack s0)
           (buildFrom (closure_of e adj d2) rootId stack s0)"
  using assms by (intro buildFrom_sim) (simp add: same_but_depth_def depth_positive_def)

lemma nat_str_digit: "n < 10 \<Longrightarrow> nat_str n = [''0123456789'' ! n]"
  by (simp add: nat_str.simps)

lemma buildRec_twig:
  "buildRec 2 cl ''r'' s =
     (let s1 = snd (getBody cl ''r'' s);
          n1 = TreeNode ''r'' (fst (getBody cl ''r'' s)) [] [];
          c = finish_node cl ''a'' (TreeNode ''a'' (fst (getBody cl ''a'' s1)) [] [], snd (getBody cl ''a'' s1))
      in Inr (finish_node cl ''r'' (attach_child cl n1 (fst c) (snd c))))"
  if "adjacency cl = twig"
  using that
  by (simp add: eval_nat_numeral buildRec_Suc buildRec_children_Cons twig_def adj_get_def Let_def)

lemma upt_small: "[0..<2] = [0, 1]" "[0..<3] = [0, 1, 2]"
  by (simp_all add: numeral_2_eq_2 numeral_3_eq_3)

lemma twig_ids:
  assumes "adjacency cl = twig" "Math_random cl = (\<lambda>n. 0)"
  shows "node_ids (fst (projr (buildRec 2 cl ''r'' s))) =
     [''r'', ''a''] @ (if depth_positive cl ''a'' then [''terminal_leaf_a_0'', ''terminal_leaf_a_1'', ''terminal_leaf_a_2''] else [])
     @ (if depth_positive cl ''r'' then [''leaf_r_0'', ''leaf_r_1''] else [])"
  using assms
  by (simp add: buildRec_twig[OF assms(1)] Let_def twig_def adj_get_def numLeaves_mid_def numLeaves_terminal_def
      leaf_label_def terminal_leaf_label_def nat_str_digit upt_small)

theorem depth_values_only_seed_positions_witness:
  "same_result (buildFrom (closure_of example_env twig [(''r'', 0), (''a'', 1)]) ''r'' 2 empty_scene)
     (buildFrom (closure_of example_env twig [(''r'', 0), (''a'', 7)]) ''r'' 2 empty_scene)"
proof -
  have "\<forall>i. positive_in [(''r'', 0), (''a'', 1)] i = positive_in [(''r'', 0), (''a'', 7::nat)] i"
    by (simp add: positive_in_def)
  from depth_values_only_seed_positions[OF this] show ?thesis .
qed

lemma twig_node_lists:
  "bfs_depth twig ''r'' = twig_depth \<and> map fst swapped_depth = map fst twig_depth
   \<and> (case buildFrom (closure_of example_env twig twig_depth) ''r'' 2 empty_scene of
         Inl e \<Rightarrow> [] | Inr (t, s) \<Rightarrow> map node_id (nodes s))
       = [''r'', ''a'', ''terminal_leaf_a_0'', ''terminal_leaf_a_1'', ''terminal_leaf_a_2'']
   \<and> (case buildFrom (closure_of example_env twig swapped_depth) ''r'' 2 empty_scene of
         Inl e \<Rightarrow> [] | Inr (t, s) \<Rightarrow> map node_id (nodes s))
       = [''r'', ''a'', ''leaf_r_0'', ''leaf_r_1'']
   \<and> \<not> same_result (buildFrom (closure_of example_env twig twig_depth) ''r'' 2 empty_scene)
           (buildFrom (closure_of example_env twig swapped_depth) ''r'' 2 empty_scene)"
proof -
  have b: "bfs_depth twig ''r'' = twig_depth"
    by (simp add: bfs_depth_def twig_def twig_depth_def adj_get_def map_has_def depth_or_0_def)
  have m: "Math_random (closure_of example_env twig dm) = (\<lambda>n. 0)" for dm by (simp add: example_env_def)
  have ids: "(case buildFrom (closure_of example_env twig dm) ''r'' 2 empty_scene of
         Inl e \<Rightarrow> [] | Inr (t, s) \<Rightarrow> map node_id (nodes s))
       = node_ids (fst (projr (buildRec 2 (closure_of example_env twig dm) ''r''
            (empty_scene\<lparr>idxByDepth := [], bodyCache := []\<rparr>))))" for dm
  proof (cases "buildFrom (closure_of example_env twig dm) ''r'' 2 empty_scene")
    case (Inl e)
    then show ?thesis by (simp add: buildFrom_Inl buildRec_twig Let_def)
  next
    case (Inr ts)
    obtain t s where ts: "ts = (t, s)" by (cases ts)
    from buildFrom_Inr[OF Inr[unfolded ts]] show ?thesis
      by (auto simp: Inr ts node_ids_def)
  qed
  have l: "(case buildFrom (closure_of example_env twig twig_depth) ''r'' 2 empty_scene of
         Inl e \<Rightarrow> [] | Inr (t, s) \<Rightarrow> map node_id (nodes s))
       = [''r'', ''a'', ''terminal_leaf_a_0'', ''terminal_leaf_a_1'', ''terminal_leaf_a_2'']"
    "(case buildFrom (closure_of example_env twig swapped_depth) ''r'' 2 empty_scene of
         Inl e \<Rightarrow> [] | Inr (t, s) \<Rightarrow> map node_id (nodes s))
       = [''r'', ''a'', ''leaf_r_0'', ''leaf_r_1'']"
    unfolding ids
    by (simp_all add: twig_ids[OF _ m] depth_positive_def positive_in_def twig_depth_def swapped_depth_def)
  have "\<not> same_result (buildFrom (closure_of example_env twig twig_depth) ''r'' 2 empty_scene)
           (buildFrom (closure_of example_env twig swapped_depth) ''r'' 2 empty_scene)"
  proof
    assume sr: "same_result (buildFrom (closure_of example_env twig twig_depth) ''r'' 2 empty_scene)
           (buildFrom (closure_of example_env twig swapped_depth) ''r'' 2 empty_scene)"
    then have "(case buildFrom (closure_of example_env twig twig_depth) ''r'' 2 empty_scene of
         Inl e \<Rightarrow> [] | Inr (t, s) \<Rightarrow> map node_id (nodes s))
       = (case buildFrom (closure_of example_env twig swapped_depth) ''r'' 2 empty_scene of
         Inl e \<Rightarrow> [] | Inr (t, s) \<Rightarrow> map node_id (nodes s))"
      by (auto simp: same_result_def same_but_positions_def split: sum.splits)
    then show False unfolding l by simp
  qed
  with b l show ?thesis by (simp add: twig_depth_def swapped_depth_def)
qed

lemma twig_returns: "\<not> isl (buildFrom (closure_of example_env twig dm) ''r'' 2 empty_scene)"
proof (cases "buildFrom (closure_of example_env twig dm) ''r'' 2 empty_scene")
  case (Inl e)
  then show ?thesis by (simp add: buildFrom_Inl buildRec_twig Let_def)
next
  case (Inr ts)
  then show ?thesis by simp
qed

text \<open>
  Two depth maps on the same ids that disagree on which depths are positive give
  different trees: on the adjacency \<open>r \<rightarrow> a\<close> the depth map of the breadth-first loop
  decorates \<open>a\<close> with terminal leaves, and the map with the two depths swapped hangs
  leaves between \<open>r\<close> and \<open>a\<close> instead.
\<close>

theorem depth_only_layout_counterexample:
  "bfs_depth twig ''r'' = twig_depth \<and> map fst swapped_depth = map fst twig_depth
   \<and> map node_id (nodes (snd (projr (buildFrom (closure_of example_env twig twig_depth) ''r'' 2 empty_scene))))
       = [''r'', ''a'', ''terminal_leaf_a_0'', ''terminal_leaf_a_1'', ''terminal_leaf_a_2'']
   \<and> map node_id (nodes (snd (projr (buildFrom (closure_of example_env twig swapped_depth) ''r'' 2 empty_scene))))
       = [''r'', ''a'', ''leaf_r_0'', ''leaf_r_1'']
   \<and> \<not> same_result (buildFrom (closure_of example_env twig twig_depth) ''r'' 2 empty_scene)
           (buildFrom (closure_of example_env twig swapped_depth) ''r'' 2 empty_scene)"
proof -
  have p: "(case r of Inl e \<Rightarrow> [] | Inr (t, s) \<Rightarrow> map node_id (nodes s)) = l
      \<Longrightarrow> \<not> isl r \<Longrightarrow> map node_id (nodes (snd (projr r))) = l"
    for r :: "error + tree_node \<times> scene" and l
    by (cases r) (auto split: prod.splits)
  note t = twig_node_lists
  note t1 = t[THEN conjunct1]
  note t2 = t[THEN conjunct2, THEN conjunct1]
  note t3 = p[OF t[THEN conjunct2, THEN conjunct2, THEN conjunct1] twig_returns]
  note t4 = p[OF t[THEN conjunct2, THEN conjunct2, THEN conjunct2, THEN conjunct1] twig_returns]
  note t5 = t[THEN conjunct2, THEN conjunct2, THEN conjunct2, THEN conjunct2]
  from t1 t2 t3 t4 t5 show ?thesis by (intro conjI)
qed

section \<open>The repulsion step of \<open>applyForces\<close>\<close>

text \<open>
  \<^verbatim>\<open>
  const list = this.nodeBodies;
  ...
  // 3) repulsion (inverse-square, clamped)
  const {k, min, max} = CFG.repulsion;
  for (let i = 0; i < list.length; i++) {
      const A = list[i];
      for (let j = i + 1; j < list.length; j++) {
          const B = list[j];
          const dx = B.position.x - A.position.x;
          const dy = B.position.y - A.position.y;
          const r2 = dx * dx + dy * dy;
          if (r2 === 0) { continue; }
          const r = Math.sqrt(r2);
          if (r > max) { continue; }
          const clamped = Math.max(r, min);
          const mag = k / (clamped * clamped);
          const fx = (dx / r) * mag;
          const fy = (dy / r) * mag;
          Body.applyForce(A, A.position, {x: -fx, y: -fy});
          Body.applyForce(B, B.position, {x: fx, y: fy});
      }
  }
  \<close>
  \<open>repulsionForce\<close> is the body of the inner loop up to the two \<open>applyForce\<close> calls:
  \<open>None\<close> when the round ends in a \<open>continue\<close>, the force \<open>(fx, fy)\<close> otherwise. Its
  divisions are \<open>js_div\<close>, whose result is not a number when the divisor is zero.
  \<open>repulse_pair\<close> is one round on the heap of bodies and \<open>repulsion\<close> the two loops.
  The other steps of \<open>applyForces\<close> (gravity, the upward force, the pull to the centre
  and the damping of velocities) involve no pair of bodies and are not part of the model.
\<close>

definition pair_dx :: "vec \<Rightarrow> vec \<Rightarrow> jsnum" where "pair_dx pa pb = js_sub (fst pb) (fst pa)"
definition pair_dy :: "vec \<Rightarrow> vec \<Rightarrow> jsnum" where "pair_dy pa pb = js_sub (snd pb) (snd pa)"
definition pair_r2 :: "vec \<Rightarrow> vec \<Rightarrow> jsnum" where
  "pair_r2 pa pb = js_add (js_mul (pair_dx pa pb) (pair_dx pa pb)) (js_mul (pair_dy pa pb) (pair_dy pa pb))"
definition pair_r :: "vec \<Rightarrow> vec \<Rightarrow> jsnum" where "pair_r pa pb = js_sqrt (pair_r2 pa pb)"
definition pair_clamped :: "vec \<Rightarrow> vec \<Rightarrow> jsnum" where
  "pair_clamped pa pb = js_max (pair_r pa pb) (Some CFG_repulsion_min)"

definition repulsionForce :: "vec \<Rightarrow> vec \<Rightarrow> vec option" where
  "repulsionForce pa pb =
     (if pair_r2 pa pb = Some 0 then None
      else if js_gt (pair_r pa pb) (Some CFG_repulsion_max) then None
      else let mag = js_div (Some CFG_repulsion_k) (js_mul (pair_clamped pa pb) (pair_clamped pa pb));
               fx = js_mul (js_div (pair_dx pa pb) (pair_r pa pb)) mag;
               fy = js_mul (js_div (pair_dy pa pb) (pair_r pa pb)) mag
           in Some (fx, fy))"

definition repulse_pair :: "nat \<Rightarrow> nat \<Rightarrow> body list \<Rightarrow> body list" where
  "repulse_pair a b h =
     (case repulsionForce (position (h ! a)) (position (h ! b)) of
        None \<Rightarrow> h
      | Some f \<Rightarrow>
          let h1 = h[a := applyForce (h ! a) (js_neg (fst f), js_neg (snd f))]
          in h1[b := applyForce (h1 ! b) f])"







lemma pair_finite:
  "pair_dx (Some ax, Some ay) (Some bx, Some by) = Some (bx - ax)"
  "pair_dy (Some ax, Some ay) (Some bx, Some by) = Some (by - ay)"
  "pair_r2 (Some ax, Some ay) (Some bx, Some by) = Some ((bx - ax) * (bx - ax) + (by - ay) * (by - ay))"
  "pair_r (Some ax, Some ay) (Some bx, Some by) = Some (sqrt ((bx - ax) * (bx - ax) + (by - ay) * (by - ay)))"
  by (simp_all add: pair_dx_def pair_dy_def pair_r2_def pair_r_def js_sub_def js_add_def js_mul_def
        js_lift2_def js_sqrt_def not_less)





text \<open>A node body at the position \<open>(x, y)\<close>.\<close>

definition body_at :: "real \<Rightarrow> real \<Rightarrow> body" where
  "body_at x y = \<lparr>label = ''Circle Body'', position = (Some x, Some y), circleRadius = 12,
     frictionAir = 0.05, fillStyle = ''#75d7ff'', strokeStyle = ''#dff6ff'', lineWidth = 1.5,
     collisionFilter_group = - 1, velocity = (Some 0, Some 0), force = (Some 0, Some 0)\<rparr>"


text \<open>
  Claim C10. For a pair whose squared distance is zero the round ends before any
  division and applies no force; two bodies at the same position are such a pair. When a
  force is computed, neither divisor (the distance \<open>r\<close> and the square of the clamped
  distance) is zero, and for finite positions both components of the force are numbers.
\<close>

theorem repulsion_never_divides_by_zero:
  "(pair_r2 pa pb = Some 0 \<longrightarrow> repulsionForce pa pb = None)
   \<and> pair_r2 (Some x, Some y) (Some x, Some y) = Some 0
   \<and> (position (h ! a) = (Some x, Some y) \<and> position (h ! b) = (Some x, Some y) \<longrightarrow>
        repulse_pair a b h = h)
   \<and> (repulsionForce pa pb \<noteq> None \<longrightarrow>
        pair_r pa pb \<noteq> Some 0 \<and> js_mul (pair_clamped pa pb) (pair_clamped pa pb) \<noteq> Some 0)
   \<and> (repulsionForce (Some ax, Some ay) (Some bx, Some by) \<noteq> None \<longrightarrow>
        (\<exists>fx fy. repulsionForce (Some ax, Some ay) (Some bx, Some by) = Some (Some fx, Some fy)))"
proof (intro conjI impI)
  show "repulsionForce pa pb = None" if "pair_r2 pa pb = Some 0"
    using that by (simp add: repulsionForce_def)
  show same: "pair_r2 (Some x, Some y) (Some x, Some y) = Some 0" by (simp add: pair_finite)
  show "repulse_pair a b h = h"
    if "position (h ! a) = (Some x, Some y) \<and> position (h ! b) = (Some x, Some y)"
    using that same by (simp add: repulse_pair_def repulsionForce_def)
  assume f: "repulsionForce pa pb \<noteq> None"
  then have r2: "pair_r2 pa pb \<noteq> Some 0" by (auto simp: repulsionForce_def split: if_splits)
  show "pair_r pa pb \<noteq> Some 0"
  proof
    assume "pair_r pa pb = Some 0"
    then have "pair_r2 pa pb = Some 0"
      by (auto simp: pair_r_def js_sqrt_def split: option.splits if_splits)
    with r2 show False ..
  qed
  show "js_mul (pair_clamped pa pb) (pair_clamped pa pb) \<noteq> Some 0"
    by (auto simp: pair_clamped_def js_mul_def js_max_def js_lift2_def CFG_repulsion_min_def
        split: option.splits)
next
  assume f: "repulsionForce (Some ax, Some ay) (Some bx, Some by) \<noteq> None"
  let ?r2 = "(bx - ax) * (bx - ax) + (by - ay) * (by - ay)"
  from f have r2: "?r2 \<noteq> 0" by (auto simp: repulsionForce_def pair_finite split: if_splits)
  then have r: "sqrt ?r2 \<noteq> 0" by simp
  have c: "max (sqrt ?r2) CFG_repulsion_min * max (sqrt ?r2) CFG_repulsion_min \<noteq> 0"
    by (auto simp: max_def CFG_repulsion_min_def)
  from f r c show "\<exists>fx fy. repulsionForce (Some ax, Some ay) (Some bx, Some by) = Some (Some fx, Some fy)"
    unfolding repulsionForce_def pair_clamped_def pair_finite
    by (simp add: js_div_def js_mul_def js_max_def js_lift2_def Let_def split: if_splits)
qed

theorem repulsion_never_divides_by_zero_witness:
  "repulse_pair 0 1 [body_at 7 9, body_at 7 9] = [body_at 7 9, body_at 7 9]
   \<and> repulsionForce (Some 7, Some 9) (Some 7, Some 9) = None
   \<and> repulsionForce (Some 0, Some 0) (Some 30, Some 40) \<noteq> None
   \<and> pair_r (Some 0, Some 0) (Some 30, Some 40) \<noteq> Some 0"
proof -
  note t = repulsion_never_divides_by_zero[of "(Some 7, Some 9)" "(Some 7, Some 9)" 7 9
      "[body_at 7 9, body_at 7 9]" 0 1 0 0 30 40]
  note u = repulsion_never_divides_by_zero[of "(Some 0, Some 0)" "(Some 30, Some 40)" 7 9
      "[body_at 7 9, body_at 7 9]" 0 1 0 0 30 40]
  have s1: "sqrt ((30 - 0) * (30 - 0) + (40 - 0) * (40 - 0)) = (50 :: real)"
    by (rule real_sqrt_unique) simp_all
  have nn: "repulsionForce (Some 0, Some 0) (Some 30, Some 40) \<noteq> None"
    unfolding repulsionForce_def pair_finite s1 by (simp add: js_gt_def CFG_repulsion_max_def Let_def)
  from t have a: "repulse_pair 0 1 [body_at 7 9, body_at 7 9] = [body_at 7 9, body_at 7 9]"
    by (simp add: body_at_def)
  from t have b: "repulsionForce (Some 7, Some 9) (Some 7, Some 9) = None" by simp
  from u nn have c: "pair_r (Some 0, Some 0) (Some 30, Some 40) \<noteq> Some 0" by blast
  from a b nn c show ?thesis by blast
qed

section \<open>The effect of the UI component\<close>

text \<open>
  \<^verbatim>\<open>
  useEffect(() => {
    if (canvasRef.current && !canvasRef.current?.dataset.started) {
      canvasRef.current.dataset.started = 1;
      makeTree(canvasRef.current);
    }
  }, [])
  \<close>
  and, in the version that sizes the canvas first,
  \<^verbatim>\<open>
  useEffect(() => {
    if (canvasRef.current && !canvasRef.current?.dataset.started) {
      const canvas = canvasRef.current;
      const container = canvas.parentElement;
      const updateCanvasSize = () => {
        const containerStyle = getComputedStyle(container);
        ...
      };
      updateCanvasSize();
      const handleResize = () => { updateCanvasSize(); };
      window.addEventListener('resize', handleResize);
      canvas.dataset.started = 1;
      makeTree(canvas);
      return () => { window.removeEventListener('resize', handleResize); };
    }
  }, [])
  \<close>
  The canvas element carries the marker \<open>dataset.started\<close>; the model counts the calls
  of \<open>makeTree\<close> on it and the resize listeners added. When the effect runs, the ref is
  null, or holds the canvas outside any container (then \<open>getComputedStyle(null)\<close> throws
  and the effect ends there, before the marker is set), or holds the canvas in its
  container. An invocation is one run of either version of the effect.
\<close>

record canvas_element =
  dataset_started :: bool
  makeTree_calls :: nat
  resize_listeners :: nat

datatype canvas_ref = Null | Detached | Attached

definition effect_App :: "canvas_ref \<Rightarrow> canvas_element \<Rightarrow> canvas_element" where
  "effect_App current c =
     (if current \<noteq> Null \<and> \<not> dataset_started c
      then c\<lparr>dataset_started := True, makeTree_calls := makeTree_calls c + 1\<rparr>
      else c)"

definition effect_sized :: "canvas_ref \<Rightarrow> canvas_element \<Rightarrow> canvas_element" where
  "effect_sized current c =
     (if current \<noteq> Null \<and> \<not> dataset_started c
      then (if current = Detached then c
            else c\<lparr>resize_listeners := resize_listeners c + 1, dataset_started := True,
                   makeTree_calls := makeTree_calls c + 1\<rparr>)
      else c)"

definition fresh_canvas :: canvas_element where
  "fresh_canvas = \<lparr>dataset_started = False, makeTree_calls = 0, resize_listeners = 0\<rparr>"

datatype effect_call = App_effect canvas_ref | Sized_effect canvas_ref

fun run_effect :: "effect_call \<Rightarrow> canvas_element \<Rightarrow> canvas_element" where
  "run_effect (App_effect current) c = effect_App current c"
| "run_effect (Sized_effect current) c = effect_sized current c"

lemma run_effect_step:
  "makeTree_calls (run_effect ev c) = makeTree_calls c + (if dataset_started (run_effect ev c) \<and> \<not> dataset_started c then 1 else 0)"
  "dataset_started c \<Longrightarrow> run_effect ev c = c"
  by (cases ev; simp add: effect_App_def effect_sized_def)+

lemma run_effects_started:
  "dataset_started c \<Longrightarrow> fold run_effect evs c = c"
  by (induction evs) (simp_all add: run_effect_step(2))

lemma run_effects_calls:
  "makeTree_calls (fold run_effect evs c) =
     makeTree_calls c + (if dataset_started (fold run_effect evs c) \<and> \<not> dataset_started c then 1 else 0)"
proof (induction evs arbitrary: c)
  case Nil
  then show ?case by simp
next
  case (Cons ev evs)
  show ?case
  proof (cases "dataset_started (run_effect ev c)")
    case True
    then show ?thesis
      using run_effect_step(1)[of ev c] run_effect_step(2)[of c ev]
      by (auto simp: run_effects_started)
  next
    case False
    then have "\<not> dataset_started c" using run_effect_step(2)[of c ev] by auto
    with False show ?thesis using Cons.IH[of "run_effect ev c"] run_effect_step(1)[of ev c] by simp
  qed
qed

text \<open>
  Claim C7. However often and in whatever order the effects run on one canvas element,
  \<open>makeTree\<close> is called on it at most once: once the marker is set no invocation calls
  it again, and the canvas has been handed over exactly when the marker is set.
\<close>

theorem makeTree_called_at_most_once:
  "makeTree_calls (fold run_effect evs fresh_canvas) \<le> 1
   \<and> (dataset_started c \<longrightarrow> makeTree_calls (fold run_effect evs c) = makeTree_calls c)
   \<and> makeTree_calls (fold run_effect evs c) \<le> makeTree_calls c + 1
   \<and> (makeTree_calls (fold run_effect evs fresh_canvas) = 1
        \<longleftrightarrow> dataset_started (fold run_effect evs fresh_canvas))"
  using run_effects_calls[of evs fresh_canvas] run_effects_calls[of evs c]
  by (auto simp: fresh_canvas_def run_effects_started)

theorem makeTree_called_at_most_once_witness:
  "makeTree_calls (fold run_effect [Sized_effect Null, Sized_effect Detached, Sized_effect Attached,
       Sized_effect Attached, App_effect Attached] fresh_canvas) = 1"
proof -
  have "dataset_started (fold run_effect [Sized_effect Null, Sized_effect Detached, Sized_effect Attached,
       Sized_effect Attached, App_effect Attached] fresh_canvas)"
    by (simp add: fresh_canvas_def effect_sized_def effect_App_def)
  with makeTree_called_at_most_once[of "[Sized_effect Null, Sized_effect Detached, Sized_effect Attached,
       Sized_effect Attached, App_effect Attached]" fresh_canvas]
  show ?thesis by blast
qed

end
